theory Spec2Isabelle
  imports Main "HOL-Library.Word"
begin

section \<open>Data model\<close>

text \<open>
  Python exceptions are values of \<open>error\<close>; a function that may raise returns
  \<open>error + 'a\<close> with \<open>Inl\<close> for the exception. Python integers are \<open>int\<close>,
  byte strings are lists of 8-bit words; the doubles that \<open>factor\<close> computes
  with are modelled where it is.
\<close>

datatype error =
    TypeError
  | ValueError
  | ZeroDivisionError
  | IndexError
  | UnboundLocalError
  | OverflowError
  | FactorizationError
  | CalledProcessError
  | TimeoutExpired
  | OtherError

type_synonym byte = "8 word"

text \<open>
  \<open>PublicKey\<close>: the modulus and the public exponent, and the factors an attack may
  attach. The exponent is a natural number: \<open>**\<close> with a negative exponent leaves
  the integers.
\<close>

record publickey =
  pk_n :: int
  pk_e :: nat
  pk_p :: "int option"
  pk_q :: "int option"

text \<open>An argument that the code tests with \<open>isinstance(_, list)\<close>.\<close>

datatype 'a py_arg = Single 'a | Listed "'a list"

section \<open>multi\_keys/hastads.py\<close>

subsection \<open>\<open>mul_inv\<close>\<close>

text \<open>
  The \<open>while a > 1\<close> loop of \<open>mul_inv\<close> on the state \<open>(a, b, x0, x1)\<close>.
  \<open>a // b\<close> and \<open>a % b\<close> raise ZeroDivisionError when \<open>b = 0\<close>; otherwise they
  are floor division and its remainder, as \<open>div\<close> and \<open>mod\<close> on \<open>int\<close>.
\<close>

function mul_inv_loop :: "int \<Rightarrow> int \<Rightarrow> int \<Rightarrow> int \<Rightarrow> error + int" where
  "mul_inv_loop a b x0 x1 =
     (if a > 1 then
        (if b = 0 then Inl ZeroDivisionError
         else mul_inv_loop b (a mod b) (x1 - (a div b) * x0) x0)
      else Inr x1)"
  by pat_completeness auto
termination
  by (relation "measure (\<lambda>(a, b, x0, x1). nat \<bar>b\<bar>)") (auto simp: abs_mod_less)

declare mul_inv_loop.simps [simp del]

definition mul_inv :: "int \<Rightarrow> int \<Rightarrow> error + int" where
  "mul_inv a b =
     (if b = 1 then Inr 1
      else (case mul_inv_loop a b 0 1 of
              Inl err \<Rightarrow> Inl err
            | Inr x1 \<Rightarrow> Inr (if x1 < 0 then x1 + b else x1)))"

subsection \<open>\<open>chinese_remainder\<close>\<close>

text \<open>
  The \<open>for n_i, a_i in zip(n, a)\<close> loop, with the running \<open>sum\<close> as accumulator
  (\<open>prod_n\<close> and \<open>sum_n\<close> are the source's \<open>prod\<close> and \<open>sum\<close>).
\<close>

fun crt_loop :: "int \<Rightarrow> (int \<times> int) list \<Rightarrow> int \<Rightarrow> error + int" where
  "crt_loop prod_n [] sum_n = Inr sum_n"
| "crt_loop prod_n ((n_i, a_i) # rest) sum_n =
     (if n_i = 0 then Inl ZeroDivisionError
      else (let p = prod_n div n_i in
        (case mul_inv p n_i of
           Inl err \<Rightarrow> Inl err
         | Inr x \<Rightarrow> crt_loop prod_n rest (sum_n + a_i * x * p))))"

text \<open>
  \<open>reduce(lambda a, b: a * b, n)\<close> raises TypeError on the empty list and folds from
  the left otherwise; \<open>sum % prod\<close> raises ZeroDivisionError when \<open>prod = 0\<close>.
\<close>

definition chinese_remainder :: "int list \<Rightarrow> int list \<Rightarrow> error + int" where
  "chinese_remainder n a =
     (case n of
        [] \<Rightarrow> Inl TypeError
      | n0 # ns \<Rightarrow>
          (let prod_n = foldl (*) n0 ns in
           (case crt_loop prod_n (zip n a) 0 of
              Inl err \<Rightarrow> Inl err
            | Inr sum_n \<Rightarrow>
                (if prod_n = 0 then Inl ZeroDivisionError else Inr (sum_n mod prod_n)))))"

subsection \<open>\<open>find_invpow\<close>\<close>

text \<open>
  The first loop, \<open>while high ** n < x: high *= 2\<close>. It does not end when \<open>n = 0\<close>
  and \<open>x > 1\<close>; \<open>None\<close> is the loop that never returns.
\<close>

partial_function (option) find_high :: "int \<Rightarrow> nat \<Rightarrow> int \<Rightarrow> int option" where
  "find_high x n high = (if high ^ n < x then find_high x n (high * 2) else Some high)"

declare find_high.simps [code]

text \<open>
  The bisection loop. \<open>mid\<close> is unbound until the first iteration has assigned it;
  the last argument holds its current value. \<open>return mid + 1\<close> after the loop
  raises UnboundLocalError when \<open>mid\<close> was never assigned.
\<close>

function bisect :: "int \<Rightarrow> nat \<Rightarrow> int \<Rightarrow> int \<Rightarrow> int option \<Rightarrow> error + int" where
  "bisect x n low high mid0 =
     (if low < high then
        (let mid = (low + high) div 2 in
         if low < mid \<and> mid ^ n < x then bisect x n mid high (Some mid)
         else if high > mid \<and> mid ^ n > x then bisect x n low mid (Some mid)
         else Inr mid)
      else (case mid0 of None \<Rightarrow> Inl UnboundLocalError | Some mid \<Rightarrow> Inr (mid + 1)))"
  by pat_completeness auto
termination
  by (relation "measure (\<lambda>(x, n, low, high, mid0). nat (high - low))") auto

declare bisect.simps [simp del]

definition find_invpow :: "int \<Rightarrow> nat \<Rightarrow> (error + int) option" where
  "find_invpow x n =
     (case find_high x n 1 of
        None \<Rightarrow> None
      | Some high \<Rightarrow> Some (bisect x n (high div 2) high None))"

subsection \<open>Integers, hexadecimal strings and bytes\<close>

text \<open>\<open>int.from_bytes(b, byteorder="big")\<close>.\<close>

definition from_bytes :: "byte list \<Rightarrow> int" where
  "from_bytes bs = foldl (\<lambda>acc b. acc * 256 + uint b) 0 bs"

definition hex_digit :: "nat \<Rightarrow> char" where
  "hex_digit d = ''0123456789abcdef'' ! d"

function hex_digits :: "nat \<Rightarrow> string" where
  "hex_digits k =
     (if k < 16 then [hex_digit k] else hex_digits (k div 16) @ [hex_digit (k mod 16)])"
  by pat_completeness auto
termination
  by (relation "measure id") auto

text \<open>\<open>hex(x)\<close>: a sign, the prefix \<open>0x\<close> and the digits without leading zeros.\<close>

definition hex :: "int \<Rightarrow> string" where
  "hex x = (if x < 0 then ''-0x'' @ hex_digits (nat (- x)) else ''0x'' @ hex_digits (nat x))"

definition hexval :: "char \<Rightarrow> nat option" where
  "hexval c =
     (let k = of_char c :: nat in
      if 48 \<le> k \<and> k \<le> 57 then Some (k - 48)
      else if 97 \<le> k \<and> k \<le> 102 then Some (k - 87)
      else if 65 \<le> k \<and> k \<le> 70 then Some (k - 55)
      else None)"

definition is_space :: "char \<Rightarrow> bool" where
  "is_space c = (let k = of_char c :: nat in k = 32 \<or> (9 \<le> k \<and> k \<le> 13))"

text \<open>
  \<open>bytes.fromhex(s)\<close>: ASCII whitespace before a byte is skipped, every byte is two
  hexadecimal digits, anything else raises ValueError.
\<close>

fun fromhex :: "string \<Rightarrow> error + byte list" where
  "fromhex [] = Inr []"
| "fromhex [c] = (if is_space c then Inr [] else Inl ValueError)"
| "fromhex (c # d # rest) =
     (if is_space c then fromhex (d # rest)
      else case (hexval c, hexval d) of
             (Some h, Some l) \<Rightarrow>
               (case fromhex rest of
                  Inl err \<Rightarrow> Inl err
                | Inr bs \<Rightarrow> Inr (word_of_nat (16 * h + l) # bs))
           | _ \<Rightarrow> Inl ValueError)"

subsection \<open>\<open>attack\<close> (\<open>hastads_attack\<close>)\<close>

text \<open>
  The result pair \<open>(private key, plaintext)\<close>; \<open>(None, None)\<close> is the empty result.
  The H\aa stad attack never builds a private key, so the key type is a parameter.
  The first argument of the source, \<open>attack_rsa_obj\<close>, is not used by this attack.
  \<open>set(e)\<close> is the list without duplicates; from a set of one element \<open>pop\<close> takes
  that element.
\<close>

type_synonym 'k attack_result = "'k option \<times> byte list option"

definition hastads_attack :: "publickey py_arg \<Rightarrow> byte list list \<Rightarrow> (error + 'k attack_result) option" where
  "hastads_attack publickeys cipher =
     (case publickeys of
        Single _ \<Rightarrow> Some (Inr (None, None))
      | Listed pks \<Rightarrow>
          (let c = map from_bytes cipher;
               usable = filter (\<lambda>publickey. pk_e publickey < 11) pks;
               n = map pk_n usable;
               e = remdups (map pk_e usable)
           in if length e \<noteq> 1 then Some (Inr (None, None))
              else
                (case chinese_remainder n c of
                   Inl err \<Rightarrow> Some (Inl err)
                 | Inr result \<Rightarrow>
                     (case find_invpow result (hd e) of
                        None \<Rightarrow> None
                      | Some (Inl err) \<Rightarrow> Some (Inl err)
                      | Some (Inr root) \<Rightarrow>
                          (case fromhex (drop 2 (hex root)) of
                             Inl err \<Rightarrow> Some (Inl err)
                           | Inr unciphered \<Rightarrow> Some (Inr (None, Some unciphered)))))))"

section \<open>single\_key/boneh\_durfee.py\<close>

subsection \<open>Integer matrices\<close>

text \<open>
  A Sage integer matrix is the list of its rows, all of one length.
  \<open>BB.dimensions()[0]\<close> is the number of rows. \<open>delete_columns\<close> and
  \<open>delete_rows\<close> remove the listed indices and keep the order of the others;
  \<open>list.pop(i)\<close> is \<open>delete_indices [i]\<close>. Reading or deleting at an index out of
  range raises IndexError; the callers below test the range first.
\<close>

type_synonym matrix = "int list list"

definition dimension_min :: nat where
  "dimension_min = 7"

definition nrows :: "matrix \<Rightarrow> nat" where
  "nrows BB = length BB"

definition ncols :: "matrix \<Rightarrow> nat" where
  "ncols BB = (case BB of [] \<Rightarrow> 0 | row # _ \<Rightarrow> length row)"

definition delete_indices :: "nat list \<Rightarrow> 'a list \<Rightarrow> 'a list" where
  "delete_indices ds xs = map ((!) xs) (filter (\<lambda>k. k \<notin> set ds) [0..<length xs])"

definition delete_columns :: "nat list \<Rightarrow> matrix \<Rightarrow> matrix" where
  "delete_columns ds BB = map (delete_indices ds) BB"

definition delete_rows :: "nat list \<Rightarrow> matrix \<Rightarrow> matrix" where
  "delete_rows ds BB = delete_indices ds BB"

lemma length_delete_indices_less:
  "i < length xs \<Longrightarrow> i \<in> set ds \<Longrightarrow> length (delete_indices ds xs) < length xs"
proof -
  assume a: "i < length xs" "i \<in> set ds"
  have "length (filter (\<lambda>k. k \<notin> set ds) [0..<length xs]) < length [0..<length xs]"
    by (rule length_filter_less [of i]) (use a in auto)
  then show ?thesis by (simp add: delete_indices_def)
qed

lemma length_delete_rows_columns_less:
  assumes "i < length BB" and "i \<in> set ds"
  shows "length (delete_rows ds (delete_columns ds BB)) < length BB"
proof -
  have "i < length (delete_columns ds BB)"
    using assms(1) by (simp add: delete_columns_def)
  then have "length (delete_rows ds (delete_columns ds BB)) < length (delete_columns ds BB)"
    unfolding delete_rows_def using assms(2) by (rule length_delete_indices_less)
  then show ?thesis by (simp add: delete_columns_def)
qed

text \<open>
  The determinant of a square matrix (\<open>BB.det()\<close>), by expansion along the first
  row; the matrix without rows is the unit of the product, as in Sage.
\<close>

function det :: "matrix \<Rightarrow> int" where
  "det [] = 1"
| "det (row # rows) =
     sum_list (map (\<lambda>j. (- 1) ^ j * (row ! j) * det (map (delete_indices [j]) rows))
       [0..<length row])"
  by pat_completeness auto
termination
  by (relation "measure length") auto

subsection \<open>\<open>remove_unhelpful\<close>\<close>

text \<open>
  \<open>remove_unhelpful\<close> and the body of its loop \<open>for ii in range(current, -1, -1)\<close>,
  \<open>unhelpful_scan\<close>, whose last argument is the loop variable. The source mutates
  the caller's list \<open>monomials\<close> in place; the model returns it with the matrix.
  \<open>affected\<close> lists the rows \<open>jj > ii\<close> with a nonzero entry in column \<open>ii\<close>: its
  length is \<open>affected_vectors\<close> and its last element \<open>affected_vector_index\<close>.
\<close>

function remove_unhelpful :: "matrix \<Rightarrow> 'a list \<Rightarrow> int \<Rightarrow> int \<Rightarrow> error + matrix \<times> 'a list"
  and unhelpful_scan :: "matrix \<Rightarrow> 'a list \<Rightarrow> int \<Rightarrow> int \<Rightarrow> error + matrix \<times> 'a list"
where
  "remove_unhelpful BB monomials bound current =
     (if current = - 1 \<or> nrows BB \<le> dimension_min then Inr (BB, monomials)
      else unhelpful_scan BB monomials bound current)"
| "unhelpful_scan BB monomials bound ii =
     (if ii < 0 then Inr (BB, monomials)
      else if nrows BB \<le> nat ii \<or> ncols BB \<le> nat ii then Inl IndexError
      else if BB ! nat ii ! nat ii \<ge> bound then
        (let affected = filter (\<lambda>jj. BB ! jj ! nat ii \<noteq> 0) [nat ii + 1..<nrows BB];
             affected_vectors = length affected
         in if affected_vectors = 0 then
              (if length monomials \<le> nat ii then Inl IndexError
               else remove_unhelpful (delete_rows [nat ii] (delete_columns [nat ii] BB))
                      (delete_indices [nat ii] monomials) bound (ii - 1))
            else if affected_vectors = 1 then
              (let affected_vector_index = last affected in
               if ncols BB \<le> affected_vector_index then Inl IndexError
               else
                 (let affected_deeper =
                        list_all (\<lambda>kk. BB ! kk ! affected_vector_index = 0)
                          [affected_vector_index + 1..<nrows BB]
                  in if affected_deeper \<and>
                        \<bar>bound - BB ! affected_vector_index ! affected_vector_index\<bar>
                          < \<bar>bound - BB ! nat ii ! nat ii\<bar>
                     then
                       (if length monomials \<le> affected_vector_index then Inl IndexError
                        else remove_unhelpful
                               (delete_rows [affected_vector_index, nat ii]
                                  (delete_columns [affected_vector_index, nat ii] BB))
                               (delete_indices [nat ii]
                                  (delete_indices [affected_vector_index] monomials))
                               bound (ii - 1))
                     else unhelpful_scan BB monomials bound (ii - 1)))
            else unhelpful_scan BB monomials bound (ii - 1))
      else unhelpful_scan BB monomials bound (ii - 1))"
  by pat_completeness auto
termination
proof (relation "measures
    [\<lambda>x. case x of Inl (BB, _) \<Rightarrow> length BB | Inr (BB, _) \<Rightarrow> length BB,
     \<lambda>x. case x of Inl _ \<Rightarrow> 1 | Inr _ \<Rightarrow> 0,
     \<lambda>x. case x of Inl _ \<Rightarrow> 0 | Inr (_, _, _, ii) \<Rightarrow> nat (ii + 1)]", goal_cases)
  case 1
  show ?case by simp
next
  case (2 BB monomials bound current)
  show ?case by simp
next
  case (3 BB monomials bound ii)
  from 3(2) have "nat ii < length BB"
    by (simp add: nrows_def)
  then have "length (delete_rows [nat ii] (delete_columns [nat ii] BB)) < length BB"
    by (rule length_delete_rows_columns_less) simp
  then show ?case by simp
next
  case (4 BB monomials bound ii affected affected_vectors affected_vector_index)
  from 4(2) have "nat ii < length BB"
    by (simp add: nrows_def)
  then have "length (delete_rows [affected_vector_index, nat ii]
      (delete_columns [affected_vector_index, nat ii] BB)) < length BB"
    by (rule length_delete_rows_columns_less) simp
  then show ?case by simp
next
  case (5 BB monomials bound ii)
  from 5(1) show ?case by simp
next
  case (6 BB monomials bound ii)
  from 6(1) show ?case by simp
next
  case (7 BB monomials bound ii)
  from 7(1) show ?case by simp
qed

declare remove_unhelpful.simps [simp del] unhelpful_scan.simps [simp del]

subsection \<open>What pruning keeps\<close>

text \<open>
  The notions used to state what \<open>remove_unhelpful\<close> does to a lattice \<open>BB\<close>:
  \<open>submatrix BB ks\<close> keeps the rows and the columns listed in \<open>ks\<close>; a row \<open>i\<close>
  is \<open>removable\<close> when its diagonal entry reaches the bound, or when an earlier
  row \<open>k\<close> outside the kept set \<open>K\<close> has a diagonal entry that reaches the bound
  and row \<open>i\<close> has a nonzero entry in column \<open>k\<close>. \<open>kept_inv\<close> relates the
  lattice and labels at a call to the original ones, \<open>pruned_ok\<close> is the same
  for a result. \<open>pruning_example\<close> is a lattice of dimension 8 whose row 6 is
  unhelpful for the bound 10 and affects row 7 only.
\<close>

definition submatrix :: "matrix \<Rightarrow> nat list \<Rightarrow> matrix" where
  "submatrix BB ks = map (\<lambda>i. map (\<lambda>j. BB ! i ! j) ks) ks"

definition removable :: "matrix \<Rightarrow> int \<Rightarrow> nat set \<Rightarrow> nat \<Rightarrow> bool" where
  "removable BB bound K i =
     (bound \<le> BB ! i ! i \<or> (\<exists>k. k < i \<and> k \<notin> K \<and> bound \<le> BB ! k ! k \<and> BB ! i ! k \<noteq> 0))"

definition kept_inv :: "matrix \<Rightarrow> 'a list \<Rightarrow> int \<Rightarrow> nat list \<Rightarrow> matrix \<Rightarrow> 'a list \<Rightarrow> bool" where
  "kept_inv BB0 mons0 bound ks BB mons =
     (BB = submatrix BB0 ks \<and> mons = map ((!) mons0) ks \<and> sorted_wrt (<) ks
      \<and> set ks \<subseteq> {..<length BB0}
      \<and> (\<forall>i < length BB0. i \<notin> set ks \<longrightarrow> removable BB0 bound (set ks) i))"

definition pruned_ok ::
  "matrix \<Rightarrow> 'a list \<Rightarrow> int \<Rightarrow> nat list \<Rightarrow> error + matrix \<times> 'a list \<Rightarrow> bool" where
  "pruned_ok BB0 mons0 bound ks res =
     (\<exists>ks' BB' mons'. res = Inr (BB', mons') \<and> set ks' \<subseteq> set ks
        \<and> kept_inv BB0 mons0 bound ks' BB' mons')"

definition pruning_example :: matrix where
  "pruning_example =
     [[1, 0, 0, 0, 0, 0, 0, 0],
      [0, 1, 0, 0, 0, 0, 0, 0],
      [0, 0, 1, 0, 0, 0, 0, 0],
      [0, 0, 0, 1, 0, 0, 0, 0],
      [0, 0, 0, 0, 1, 0, 0, 0],
      [0, 0, 0, 0, 0, 1, 0, 0],
      [0, 0, 0, 0, 0, 0, 100, 0],
      [0, 0, 0, 0, 0, 0, 3, 5]]"

subsection \<open>\<open>boneh_durfee\<close>\<close>

text \<open>
  \<open>boneh_durfee\<close> from the constructed lattice on. The shift polynomials, the
  monomial order and the entries of the lattice are built with Sage's polynomial
  rings; the model takes the constructed lattice \<open>BB\<close> and its \<open>monomials\<close> as
  arguments. The LLL reduction, the resultant and the root search are Sage's too:
  \<open>lll_roots\<close> stands for the code after the determinant check and returns the
  pair that \<open>boneh_durfee\<close> then returns. \<open>strict\<close> and \<open>helpful_only\<close> are the
  switches of the module (\<open>False\<close> and \<open>True\<close> in the source); \<open>debug\<close> only
  prints.
\<close>

definition boneh_durfee ::
  "bool \<Rightarrow> bool \<Rightarrow> (matrix \<Rightarrow> 'a list \<Rightarrow> nat \<Rightarrow> error + int \<times> int) \<Rightarrow>
     matrix \<Rightarrow> 'a list \<Rightarrow> int \<Rightarrow> nat \<Rightarrow> error + int \<times> int" where
  "boneh_durfee strict helpful_only lll_roots BB monomials modulus mm =
     (let nn = length monomials in
      (case (if helpful_only
             then remove_unhelpful BB monomials (modulus ^ mm) (int nn - 1)
             else Inr (BB, monomials)) of
         Inl err \<Rightarrow> Inl err
       | Inr (BB, monomials) \<Rightarrow>
           (let nn = (if helpful_only then nrows BB else nn) in
            if helpful_only \<and> nn = 0 then Inr (0, 0)
            else
              (let d = det BB;
                   bound = modulus ^ (mm * nn)
               in if d \<ge> bound \<and> strict then Inr (- 1, - 1)
                  else lll_roots BB monomials nn))))"

subsection \<open>\<open>factor\<close>: the bounds and the polynomial's constant\<close>

text \<open>
  \<open>factor\<close> computes its bounds with Python's floating-point operators: \<open>N\<close> is
  a Python \<open>int\<close>, so \<open>(N + 1) / 2\<close> is true division and \<open>N ** delta\<close>,
  \<open>N ** (1 / 2)\<close> are powers of doubles.

  A finite double is \<open>PyFloat m e\<close>, the number \<open>m * 2 ^ e\<close>. True division of two
  integers gives the double nearest to the quotient, ties going to the even
  significand: the exponent is chosen so that the integer part of the scaled
  quotient has 53 bits (fewer below the smallest normal number, whose exponent
  is -1074), and the remainder decides the rounding. The division raises
  ZeroDivisionError on a zero divisor and OverflowError when the rounded quotient
  reaches \<open>2 ^ 1024\<close>. The conversion of an integer to a double rounds and
  overflows in the same way.
\<close>

function bit_length :: "int \<Rightarrow> nat" where
  "bit_length x = (if x \<le> 0 then 0 else Suc (bit_length (x div 2)))"
  by pat_completeness auto
termination
  by (relation "measure nat") auto

declare bit_length.simps [simp del]

datatype pyfloat = PyFloat int int

definition float_exponent :: "int \<Rightarrow> int \<Rightarrow> int" where
  "float_exponent x y =
     (let e0 = int (bit_length x) - int (bit_length y) - 53;
          e1 = (if 2 ^ 53 \<le> (x * 2 ^ nat (- e0)) div (y * 2 ^ nat e0) then e0 + 1 else e0)
      in max e1 (- 1074))"

definition round_half_even :: "int \<Rightarrow> int \<Rightarrow> int" where
  "round_half_even num den =
     (let q = num div den;
          r = num mod den
      in if den < 2 * r \<or> (2 * r = den \<and> odd q) then q + 1 else q)"

definition py_truediv :: "int \<Rightarrow> int \<Rightarrow> error + pyfloat" where
  "py_truediv a b =
     (if b = 0 then Inl ZeroDivisionError
      else if a = 0 then Inr (PyFloat 0 0)
      else
        (let x = \<bar>a\<bar>;
             y = \<bar>b\<bar>;
             e = float_exponent x y;
             q = round_half_even (x * 2 ^ nat (- e)) (y * 2 ^ nat e)
         in if 0 \<le> e \<and> 2 ^ 1024 \<le> q * 2 ^ nat e then Inl OverflowError
            else Inr (PyFloat (sgn a * sgn b * q) e)))"

definition float_of_int :: "int \<Rightarrow> error + pyfloat" where
  "float_of_int n = py_truediv n 1"

text \<open>
  \<open>int\<close> of a double drops the fractional part, towards zero; Sage's \<open>floor\<close> of
  a double is the largest integer below it.
\<close>

definition int_of_float :: "pyfloat \<Rightarrow> int" where
  "int_of_float x =
     (case x of PyFloat m e \<Rightarrow>
        if 0 \<le> e then m * 2 ^ nat e else sgn m * (\<bar>m\<bar> div 2 ^ nat (- e)))"

definition floor_of_float :: "pyfloat \<Rightarrow> int" where
  "floor_of_float x =
     (case x of PyFloat m e \<Rightarrow>
        if 0 \<le> e then m * 2 ^ nat e else m div 2 ^ nat (- e))"

text \<open>\<open>delta = .26\<close>: the double nearest to 26 / 100.\<close>

definition delta :: pyfloat where
  "delta = PyFloat 4683743612465316 (- 54)"

text \<open>\<open>A = int((N + 1) / 2)\<close>.\<close>

definition factor_A :: "int \<Rightarrow> error + int" where
  "factor_A N =
     (case py_truediv (N + 1) 2 of
        Inl err \<Rightarrow> Inl err
      | Inr x \<Rightarrow> Inr (int_of_float x))"

text \<open>
  The values \<open>X\<close>, \<open>Y\<close> and \<open>A\<close> that \<open>factor\<close> hands to \<open>boneh_durfee\<close>, in the
  order of the source. The power of two doubles is the C library's, whose
  rounding is not fixed: \<open>float_pow\<close> is an argument of the model, returning the
  double or the exception. Before it is called \<open>N\<close> is converted to a double.
\<close>

definition factor_bounds ::
  "(pyfloat \<Rightarrow> pyfloat \<Rightarrow> error + pyfloat) \<Rightarrow> int \<Rightarrow> error + int \<times> int \<times> int" where
  "factor_bounds float_pow N =
     (case float_of_int N of
        Inl err \<Rightarrow> Inl err
      | Inr x \<Rightarrow>
          (case float_pow x delta of
             Inl err \<Rightarrow> Inl err
           | Inr xd \<Rightarrow>
               (let X = 2 * floor_of_float xd in
                case py_truediv 1 2 of
                  Inl err \<Rightarrow> Inl err
                | Inr half \<Rightarrow>
                    (case float_pow x half of
                       Inl err \<Rightarrow> Inl err
                     | Inr xh \<Rightarrow>
                         (let Y = floor_of_float xh in
                          case factor_A N of
                            Inl err \<Rightarrow> Inl err
                          | Inr A \<Rightarrow> Inr (X, Y, A))))))"

subsection \<open>\<open>attack\<close> (\<open>boneh_durfee_attack\<close>)\<close>

text \<open>
  The attacks on one key take the \<open>PublicKey\<close> object and may assign its
  attributes \<open>p\<close> and \<open>q\<close>: the model returns the outcome together with the object
  as the call leaves it. \<open>factor\<close> runs Sage and floating-point arithmetic and
  \<open>RSA.construct\<close> is the library's; \<open>PrivateKey\<close> is the constructor of
  \<open>lib.keys_wrapper\<close>, called as \<open>PrivateKey p q e n d\<close>. They are arguments of
  the model, each returning its value or the exception it raises.
\<close>

definition boneh_durfee_attack ::
  "(int \<Rightarrow> nat \<Rightarrow> error + int option) \<Rightarrow> (int \<Rightarrow> int \<Rightarrow> int \<Rightarrow> error + int \<times> int) \<Rightarrow>
     (int option \<Rightarrow> int option \<Rightarrow> int \<Rightarrow> int \<Rightarrow> int option \<Rightarrow> error + 'k) \<Rightarrow>
     publickey \<Rightarrow> (error + 'k attack_result) \<times> publickey" where
  "boneh_durfee_attack factor rsa_construct PrivateKey publickey =
     (case factor (pk_n publickey) (pk_e publickey) of
        Inl err \<Rightarrow>
          (if err = OverflowError then (Inr (None, None), publickey) else (Inl err, publickey))
      | Inr None \<Rightarrow> (Inr (None, None), publickey)
      | Inr (Some sageresult) \<Rightarrow>
          (case rsa_construct (pk_n publickey) (int (pk_e publickey)) sageresult of
             Inl err \<Rightarrow> (Inl err, publickey)
           | Inr (tmp_p, tmp_q) \<Rightarrow>
               (let publickey = publickey\<lparr>pk_p := Some tmp_p\<rparr>;
                    publickey = publickey\<lparr>pk_q := Some tmp_q\<rparr>
                in (case PrivateKey (pk_p publickey) (pk_q publickey)
                           (int (pk_e publickey)) (pk_n publickey) None of
                      Inl err \<Rightarrow> (Inl err, publickey)
                    | Inr privatekey \<Rightarrow> (Inr (Some privatekey, None), publickey)))))"

section \<open>single\_key/smallfraction.py\<close>

text \<open>
  \<open>sage\<close> stands for \<open>int(subprocess.check_output([...], timeout=...))\<close>: the
  integer the external tool printed, or the exception of the call or of \<open>int\<close>.
  The handler catches CalledProcessError and TimeoutExpired only.
\<close>

definition smallfraction_attack ::
  "(int \<Rightarrow> error + int) \<Rightarrow>
     (int option \<Rightarrow> int option \<Rightarrow> int \<Rightarrow> int \<Rightarrow> int option \<Rightarrow> error + 'k) \<Rightarrow>
     publickey \<Rightarrow> (error + 'k attack_result) \<times> publickey" where
  "smallfraction_attack sage PrivateKey publickey =
     (case
        (case sage (pk_n publickey) of
           Inl err \<Rightarrow> (Inl err, publickey)
         | Inr sageresult \<Rightarrow>
             (if sageresult > 0 then
                (let publickey = publickey\<lparr>pk_p := Some sageresult\<rparr>;
                     publickey = publickey\<lparr>pk_q := Some (pk_n publickey div sageresult)\<rparr>
                 in (case PrivateKey (pk_p publickey) (pk_q publickey)
                            (int (pk_e publickey)) (pk_n publickey) None of
                       Inl err \<Rightarrow> (Inl err, publickey)
                     | Inr priv_key \<Rightarrow> (Inr (Some priv_key, None), publickey)))
              else (Inr (None, None), publickey))) of
        (Inl err, publickey) \<Rightarrow>
          (if err = CalledProcessError \<or> err = TimeoutExpired
           then (Inr (None, None), publickey) else (Inl err, publickey))
      | (Inr r, publickey) \<Rightarrow> (Inr r, publickey))"

section \<open>single\_key/factordb.py\<close>

subsection \<open>\<open>solveforp\<close>\<close>

text \<open>
  A character of the model is a code point below 256. \<open>str.isdigit\<close> holds of
  the decimal digits and of the superscript digits of code points 178, 179 and
  185, which \<open>int\<close> does not accept.
\<close>

definition is_digit :: "char \<Rightarrow> bool" where
  "is_digit c = (let k = of_char c :: nat in 48 \<le> k \<and> k \<le> 57)"

definition is_superscript_digit :: "char \<Rightarrow> bool" where
  "is_superscript_digit c = (let k = of_char c :: nat in k = 178 \<or> k = 179 \<or> k = 185)"

definition isdigit :: "string \<Rightarrow> bool" where
  "isdigit s = (s \<noteq> [] \<and> list_all (\<lambda>c. is_digit c \<or> is_superscript_digit c) s)"

definition digits_value :: "string \<Rightarrow> int" where
  "digits_value s = foldl (\<lambda>acc c. acc * 10 + (int (of_char c) - 48)) 0 s"

fun split_on :: "char \<Rightarrow> string \<Rightarrow> string list" where
  "split_on c [] = [[]]"
| "split_on c (x # xs) =
     (if x = c then [] # split_on c xs
      else (case split_on c xs of
              [] \<Rightarrow> [[x]]
            | w # ws \<Rightarrow> (x # w) # ws))"

text \<open>
  \<open>int\<close> of a string: the whitespace around it is dropped (the ASCII whitespace
  and the code points 133 and 160), then comes an optional sign \<open>+\<close> or \<open>-\<close>,
  then decimal digits, in groups separated by single underscores. Anything else
  raises ValueError, and so does a number of more than \<open>int_max_str_digits\<close>
  digits: the limit of CPython 3.11 and later on the conversion from a decimal
  string, at its default value.
\<close>

definition is_int_space :: "char \<Rightarrow> bool" where
  "is_int_space c =
     (let k = of_char c :: nat
      in (9 \<le> k \<and> k \<le> 13) \<or> k = 32 \<or> k = 133 \<or> k = 160)"

definition strip :: "string \<Rightarrow> string" where
  "strip s = rev (dropWhile is_int_space (rev (dropWhile is_int_space s)))"

definition int_max_str_digits :: nat where
  "int_max_str_digits = 4300"

definition py_int :: "string \<Rightarrow> error + int" where
  "py_int s =
     (let t = strip s;
          negative = (t \<noteq> [] \<and> hd t = CHR ''-'');
          body = (if t \<noteq> [] \<and> (hd t = CHR ''-'' \<or> hd t = CHR ''+'') then tl t else t);
          groups = split_on CHR ''_'' body
      in if list_all (\<lambda>g. g \<noteq> [] \<and> list_all is_digit g) groups then
           (let ds = concat groups
            in if int_max_str_digits < length ds then Inl ValueError
               else Inr (if negative then - digits_value ds else digits_value ds))
         else Inl ValueError)"

text \<open>
  \<open>solveforp\<close> turns every exception of its body into FactorizationError: a string
  that does not split into \<open>k ^ j - sub\<close> leaves a variable unbound or fails to
  unpack, and \<open>int\<close> raises on a part that is not a number.
\<close>

definition solveforp :: "string \<Rightarrow> error + int" where
  "solveforp equation =
     (case split_on CHR ''^'' equation of
        [k, j] \<Rightarrow>
          (case split_on CHR ''-'' j of
             [j, sub] \<Rightarrow>
               (case (py_int k, py_int j, py_int sub) of
                  (Inr eq0, Inr eq1, Inr eq2) \<Rightarrow> Inr (eq0 ^ nat eq1 - eq2)
                | _ \<Rightarrow> Inl FactorizationError)
           | _ \<Rightarrow> Inl FactorizationError)
      | _ \<Rightarrow> Inl FactorizationError)"

text \<open>\<open>int(key) if key.isdigit() else solveforp(key)\<close>, for \<open>key_p\<close> and \<open>key_q\<close>.\<close>

definition parse_factor :: "string \<Rightarrow> error + int" where
  "parse_factor key = (if isdigit key then py_int key else solveforp key)"

subsection \<open>\<open>attack\<close> (\<open>factordb_attack\<close>)\<close>

text \<open>
  The network is an argument of the model: \<open>query n\<close> is the first page, as the
  list \<open>ids\<close> of the identifiers found in it and the number of cells \<open><td>P</td>\<close>;
  \<open>page_values i\<close> is the list of the values found in the page of identifier \<open>i\<close>.
  Both may raise. \<open>invmod\<close> is \<open>lib.rsalibnum.invmod\<close>.

  \<open>factordb_factors\<close> is the inner \<open>try\<close> block, which assigns \<open>publickey.p\<close> and
  then \<open>publickey.q\<close>; \<open>ids[1]\<close>, \<open>ids[2]\<close> and \<open>findall(...)[0]\<close> raise IndexError
  out of range.
\<close>

definition factordb_factors ::
  "(string \<Rightarrow> error + string list) \<Rightarrow> string list \<Rightarrow> publickey \<Rightarrow> (error + unit) \<times> publickey" where
  "factordb_factors page_values ids publickey =
     (if length ids \<le> 1 then (Inl IndexError, publickey)
      else
        (case page_values (ids ! 1) of
           Inl err \<Rightarrow> (Inl err, publickey)
         | Inr [] \<Rightarrow> (Inl IndexError, publickey)
         | Inr (key_p # _) \<Rightarrow>
             (case parse_factor key_p of
                Inl err \<Rightarrow> (Inl err, publickey)
              | Inr p \<Rightarrow>
                  (let publickey = publickey\<lparr>pk_p := Some p\<rparr> in
                   if length ids \<le> 2 then (Inl IndexError, publickey)
                   else
                     (case page_values (ids ! 2) of
                        Inl err \<Rightarrow> (Inl err, publickey)
                      | Inr [] \<Rightarrow> (Inl IndexError, publickey)
                      | Inr (key_q # _) \<Rightarrow>
                          (case parse_factor key_q of
                             Inl err \<Rightarrow> (Inl err, publickey)
                           | Inr q \<Rightarrow> (Inr (), publickey\<lparr>pk_q := Some q\<rparr>)))))))"

text \<open>
  The body of the outer \<open>try\<close>, and the attack: the bare \<open>except\<close> turns every
  exception into the empty result.
\<close>

definition factordb_body ::
  "(int \<Rightarrow> error + string list \<times> nat) \<Rightarrow> (string \<Rightarrow> error + string list) \<Rightarrow>
     (int \<Rightarrow> int \<Rightarrow> error + int) \<Rightarrow>
     (int option \<Rightarrow> int option \<Rightarrow> int \<Rightarrow> int \<Rightarrow> int option \<Rightarrow> error + 'k) \<Rightarrow>
     publickey \<Rightarrow> (error + 'k attack_result) \<times> publickey" where
  "factordb_body query page_values invmod PrivateKey publickey =
     (case query (pk_n publickey) of
        Inl err \<Rightarrow> (Inl err, publickey)
      | Inr (ids, prime) \<Rightarrow>
          (if length ids = 2 \<and> prime = 1 then
             (case invmod (int (pk_e publickey)) (pk_n publickey - 1) of
                Inl err \<Rightarrow> (Inl err, publickey)
              | Inr d \<Rightarrow>
                  (case PrivateKey None None (int (pk_e publickey)) (pk_n publickey) (Some d) of
                     Inl err \<Rightarrow> (Inl err, publickey)
                   | Inr priv_key \<Rightarrow> (Inr (Some priv_key, None), publickey)))
           else
             (case factordb_factors page_values ids publickey of
                (Inl err, publickey) \<Rightarrow>
                  (if err = IndexError then (Inr (None, None), publickey)
                   else (Inl err, publickey))
              | (Inr _, publickey) \<Rightarrow>
                  (if pk_p publickey = pk_q publickey \<and> pk_q publickey = Some (pk_n publickey)
                   then (Inr (None, None), publickey)
                   else
                     (case PrivateKey (pk_p publickey) (pk_q publickey)
                             (int (pk_e publickey)) (pk_n publickey) None of
                        Inl err \<Rightarrow> (Inl err, publickey)
                      | Inr priv_key \<Rightarrow> (Inr (Some priv_key, None), publickey))))))"

definition factordb_attack ::
  "(int \<Rightarrow> error + string list \<times> nat) \<Rightarrow> (string \<Rightarrow> error + string list) \<Rightarrow>
     (int \<Rightarrow> int \<Rightarrow> error + int) \<Rightarrow>
     (int option \<Rightarrow> int option \<Rightarrow> int \<Rightarrow> int \<Rightarrow> int option \<Rightarrow> error + 'k) \<Rightarrow>
     publickey \<Rightarrow> (error + 'k attack_result) \<times> publickey" where
  "factordb_attack query page_values invmod PrivateKey publickey =
     (case factordb_body query page_values invmod PrivateKey publickey of
        (Inl err, publickey) \<Rightarrow> (Inr (None, None), publickey)
      | (Inr r, publickey) \<Rightarrow> (Inr r, publickey))"

section \<open>Properties of \<open>mul_inv\<close>\<close>

text \<open>
  The loop keeps \<open>x1 * a0 \<equiv> a\<close> and \<open>x0 * a0 \<equiv> b\<close> modulo \<open>m\<close>, where \<open>a0\<close> and
  \<open>m\<close> are the arguments of \<open>mul_inv\<close>; \<open>x0\<close> and \<open>x1\<close> have opposite signs and
  \<open>\<bar>x0\<bar> * a + \<bar>x1\<bar> * b = m\<close>, which bounds the result.
\<close>

lemma abs_diff_opposite:
  fixes x0 x1 q :: int
  assumes "x0 * x1 \<le> 0" and "0 \<le> q"
  shows "\<bar>x1 - q * x0\<bar> = \<bar>x1\<bar> + q * \<bar>x0\<bar>"
proof (cases "x0 = 0")
  case True
  then show ?thesis by simp
next
  case False
  show ?thesis
  proof (cases "0 < x0")
    case True
    with assms(1) have "x1 \<le> 0"
      by (simp add: mult_le_0_iff)
    moreover have "0 \<le> q * x0"
      using assms(2) True by simp
    ultimately show ?thesis
      using True by simp
  next
    case neg: False
    with False have x0: "x0 < 0" by simp
    with assms(1) have "0 \<le> x1"
      by (simp add: mult_le_0_iff)
    moreover have "q * x0 \<le> 0"
      using assms(2) x0 by (simp add: mult_le_0_iff)
    ultimately show ?thesis
      using x0 by simp
  qed
qed

lemma mul_inv_loop_gcd:
  assumes "1 \<le> a" and "0 \<le> b"
  shows "(mul_inv_loop a b x0 x1 = Inl ZeroDivisionError \<and> gcd a b \<noteq> 1)
       \<or> (mul_inv_loop a b x0 x1 \<noteq> Inl ZeroDivisionError \<and> (\<exists>r. mul_inv_loop a b x0 x1 = Inr r) \<and> gcd a b = 1)"
  using assms
proof (induction a b x0 x1 rule: mul_inv_loop.induct)
  case (1 a b x0 x1)
  show ?case
  proof (cases "1 < a")
    case False
    with "1.prems" have "a = 1" by simp
    then show ?thesis by (simp add: mul_inv_loop.simps [of 1])
  next
    case True
    show ?thesis
    proof (cases "b = 0")
      case True
      with \<open>1 < a\<close> show ?thesis by (simp add: mul_inv_loop.simps [of a 0])
    next
      case False
      with "1.prems" have b: "0 < b" by simp
      have g: "gcd a b = gcd b (a mod b)"
        by (metis gcd.commute gcd_red_int)
      have "1 \<le> b" and "0 \<le> a mod b"
        using b by simp_all
      from "1.IH" [OF True False this] show ?thesis
        using True False g by (simp add: mul_inv_loop.simps [of a b])
    qed
  qed
qed

lemma mul_inv_loop_cong:
  assumes "mul_inv_loop a b x0 x1 = Inr r" and "1 \<le> a" and "0 \<le> b"
    and "(x1 * a0) mod m = a mod m" and "(x0 * a0) mod m = b mod m"
  shows "(r * a0) mod m = 1 mod m"
  using assms
proof (induction a b x0 x1 rule: mul_inv_loop.induct)
  case (1 a b x0 x1)
  show ?case
  proof (cases "1 < a")
    case False
    with "1.prems" have "a = 1" and "r = x1"
      by (simp_all add: mul_inv_loop.simps [of a b])
    with "1.prems"(4) show ?thesis by simp
  next
    case True
    with "1.prems"(1) have nz: "b \<noteq> 0"
      by (auto simp: mul_inv_loop.simps [of a b])
    with "1.prems"(3) have b: "0 < b" by simp
    have step: "mul_inv_loop b (a mod b) (x1 - (a div b) * x0) x0 = Inr r"
      using "1.prems"(1) True nz by (simp add: mul_inv_loop.simps [of a b])
    have "((x1 - (a div b) * x0) * a0) mod m = (x1 * a0 - (a div b) * (x0 * a0)) mod m"
      by (simp add: algebra_simps)
    also have "\<dots> = (a - (a div b) * b) mod m"
      using "1.prems"(4,5) by (metis mod_diff_cong mod_mult_right_eq)
    also have "\<dots> = (a mod b) mod m"
      by (simp only: minus_div_mult_eq_mod)
    finally have c: "((x1 - (a div b) * x0) * a0) mod m = (a mod b) mod m" .
    show ?thesis
      using "1.IH" [OF True nz step _ _ "1.prems"(5) c] b by simp
  qed
qed

lemma mul_inv_loop_bound:
  assumes "mul_inv_loop a b x0 x1 = Inr r" and "1 < a" and "0 \<le> b"
    and "x0 * x1 \<le> 0" and "\<bar>x0\<bar> * a + \<bar>x1\<bar> * b = m" and "b < a \<or> x0 = 0"
  shows "2 * \<bar>r\<bar> \<le> m"
  using assms
proof (induction a b x0 x1 rule: mul_inv_loop.induct)
  case (1 a b x0 x1)
  from "1.prems"(1,2) have nz: "b \<noteq> 0"
    by (auto simp: mul_inv_loop.simps [of a b])
  with "1.prems"(3) have b: "0 < b" by simp
  have step: "mul_inv_loop b (a mod b) (x1 - (a div b) * x0) x0 = Inr r"
    using "1.prems"(1,2) nz by (simp add: mul_inv_loop.simps [of a b])
  have q: "0 \<le> a div b"
    using "1.prems"(2) b by (simp add: pos_imp_zdiv_nonneg_iff)
  show ?case
  proof (cases "1 < b")
    case True
    have s: "(x1 - (a div b) * x0) * x0 \<le> 0"
    proof -
      have "(x1 - (a div b) * x0) * x0 = x0 * x1 - (a div b) * (x0 * x0)"
        by (simp add: algebra_simps)
      moreover have "0 \<le> (a div b) * (x0 * x0)"
        using q by simp
      ultimately show ?thesis
        using "1.prems"(4) by linarith
    qed
    have "\<bar>x1 - (a div b) * x0\<bar> * b + \<bar>x0\<bar> * (a mod b)
            = (\<bar>x1\<bar> + (a div b) * \<bar>x0\<bar>) * b + \<bar>x0\<bar> * (a - (a div b) * b)"
      using abs_diff_opposite [OF "1.prems"(4) q]
      by (simp add: minus_div_mult_eq_mod [symmetric] mult.commute)
    also have "\<dots> = \<bar>x0\<bar> * a + \<bar>x1\<bar> * b"
      by (simp add: algebra_simps)
    finally have e: "\<bar>x1 - (a div b) * x0\<bar> * b + \<bar>x0\<bar> * (a mod b) = m"
      using "1.prems"(5) by simp
    have l: "a mod b < b \<or> x1 - (a div b) * x0 = 0"
      using b by simp
    have p: "0 \<le> a mod b"
      using b by simp
    show ?thesis
      by (rule "1.IH" [OF "1.prems"(2) nz step True p s e l])
  next
    case False
    with b have b1: "b = 1" by simp
    with step have r: "r = x0"
      by (simp add: mul_inv_loop.simps [of 1])
    show ?thesis
    proof (cases "x0 = 0")
      case True
      have "0 \<le> \<bar>x1\<bar> * b" using b by simp
      with True "1.prems"(5) r show ?thesis by simp
    next
      case False
      have "\<bar>x0\<bar> * 2 \<le> \<bar>x0\<bar> * a"
        by (rule mult_left_mono) (use "1.prems"(2) in simp_all)
      moreover have "0 \<le> \<bar>x1\<bar> * b" using b by simp
      ultimately show ?thesis
        using "1.prems"(5) r by linarith
    qed
  qed
qed

lemma mul_inv_fails:
  assumes "1 \<le> a" and "2 \<le> m" and "gcd a m \<noteq> 1"
  shows "mul_inv a m = Inl ZeroDivisionError"
proof -
  have "0 \<le> m" using assms(2) by simp
  from mul_inv_loop_gcd [OF assms(1) this, of 0 1] assms(3)
  have "mul_inv_loop a m 0 1 = Inl ZeroDivisionError" by blast
  then show ?thesis
    using assms(2) by (simp add: mul_inv_def)
qed

lemma mul_inv_correct:
  assumes "1 \<le> a" and "2 \<le> m" and "gcd a m = 1"
  shows "\<exists>r. mul_inv a m = Inr r \<and> 0 \<le> r \<and> r < m \<and> (a * r) mod m = 1"
proof -
  have m0: "0 \<le> m" using assms(2) by simp
  from mul_inv_loop_gcd [OF assms(1) m0, of 0 1] assms(3)
  obtain x where x: "mul_inv_loop a m 0 1 = Inr x" by auto
  have c: "(x * a) mod m = 1 mod m"
    by (rule mul_inv_loop_cong [OF x assms(1) m0]) simp_all
  have one: "(1 :: int) mod m = 1"
    using assms(2) by simp
  have bound: "- m < x \<and> x < m"
  proof (cases "1 < a")
    case True
    have "2 * \<bar>x\<bar> \<le> m"
      by (rule mul_inv_loop_bound [OF x True m0]) simp_all
    then show ?thesis using assms(2) by linarith
  next
    case False
    with assms(1) have "a = 1" by simp
    with x have "x = 1" by (simp add: mul_inv_loop.simps [of 1])
    then show ?thesis using assms(2) by simp
  qed
  let ?r = "if x < 0 then x + m else x"
  have r: "mul_inv a m = Inr ?r"
    using x assms(2) by (simp add: mul_inv_def)
  have "(a * ?r) mod m = (x * a) mod m"
    by (simp add: algebra_simps)
  then have "(a * ?r) mod m = 1"
    using c one by simp
  moreover have "0 \<le> ?r \<and> ?r < m"
    using bound by auto
  ultimately show ?thesis
    using r by blast
qed

lemma inverse_unique:
  fixes a m r r' :: int
  assumes "0 \<le> r" "r < m" "(a * r) mod m = 1" "0 \<le> r'" "r' < m" "(a * r') mod m = 1"
  shows "r' = r"
proof -
  have "r mod m = (r * ((a * r') mod m)) mod m"
    using assms(6) by simp
  also have "\<dots> = (r * (a * r')) mod m"
    by (rule mod_mult_right_eq)
  also have "r * (a * r') = (a * r) * r'"
    by (simp add: algebra_simps)
  also have "((a * r) * r') mod m = (((a * r) mod m) * r') mod m"
    by (rule mod_mult_left_eq [symmetric])
  also have "\<dots> = r' mod m"
    using assms(3) by simp
  finally have "r mod m = r' mod m" .
  then show ?thesis
    using assms(1,2,4,5) by simp
qed

text \<open>
  Claim C4 as stated (for all integers \<open>a\<close> and \<open>m \<ge> 1\<close>: failure exactly when
  \<open>gcd a m \<noteq> 1\<close>, otherwise the inverse in \<open>[0, m)\<close>) fails outside \<open>a \<ge> 1\<close>,
  \<open>m \<ge> 2\<close>. The loop \<open>while a > 1\<close> does not run for \<open>a \<le> 1\<close> and 1 is
  returned: for \<open>a = 0\<close>, \<open>m = 2\<close> the gcd is 2 and nothing fails; for \<open>a = -1\<close>,
  \<open>m = 5\<close> the value 1 is not an inverse. The guard \<open>if b == 1: return 1\<close> returns
  1 for \<open>m = 1\<close>, outside \<open>[0, 1)\<close>.
\<close>

theorem mul_inv_contract_counterexample:
  "mul_inv 0 2 = Inr 1 \<and> gcd 0 2 \<noteq> (1 :: int)
   \<and> mul_inv 1 1 = Inr 1 \<and> \<not> (1 :: int) < 1
   \<and> mul_inv (- 1) 5 = Inr 1 \<and> gcd (- 1) 5 = (1 :: int) \<and> ((- 1) * 1) mod 5 \<noteq> (1 :: int)"
  by (simp add: mul_inv_def mul_inv_loop.simps)

text \<open>
  Claim C4, amended: for \<open>a \<ge> 1\<close> and \<open>m \<ge> 2\<close>, \<open>mul_inv a m\<close> fails exactly
  when \<open>gcd a m \<noteq> 1\<close>, and then with ZeroDivisionError (the code has no error
  of its own); when \<open>gcd a m = 1\<close> it returns the inverse of \<open>a\<close> modulo \<open>m\<close> in
  the interval \<open>[0, m)\<close>, and that inverse is unique there.
\<close>

theorem mul_inv_contract:
  assumes "1 \<le> a" and "2 \<le> m"
  shows "((\<exists>err. mul_inv a m = Inl err) \<longleftrightarrow> gcd a m \<noteq> 1)
    \<and> (gcd a m \<noteq> 1 \<longrightarrow> mul_inv a m = Inl ZeroDivisionError)
    \<and> (gcd a m = 1 \<longrightarrow>
         (\<exists>r. mul_inv a m = Inr r \<and> 0 \<le> r \<and> r < m \<and> (a * r) mod m = 1
            \<and> (\<forall>r'. 0 \<le> r' \<and> r' < m \<and> (a * r') mod m = 1 \<longrightarrow> r' = r)))"
proof (intro conjI impI)
  show "(\<exists>err. mul_inv a m = Inl err) \<longleftrightarrow> gcd a m \<noteq> 1"
  proof
    assume "\<exists>err. mul_inv a m = Inl err"
    then show "gcd a m \<noteq> 1"
      using mul_inv_correct [OF assms] by fastforce
  next
    assume "gcd a m \<noteq> 1"
    then show "\<exists>err. mul_inv a m = Inl err"
      using mul_inv_fails [OF assms] by blast
  qed
next
  assume "gcd a m \<noteq> 1"
  then show "mul_inv a m = Inl ZeroDivisionError"
    by (rule mul_inv_fails [OF assms])
next
  assume "gcd a m = 1"
  from mul_inv_correct [OF assms this]
  obtain r where r: "mul_inv a m = Inr r" "0 \<le> r" "r < m" "(a * r) mod m = 1"
    by blast
  have "\<forall>r'. 0 \<le> r' \<and> r' < m \<and> (a * r') mod m = 1 \<longrightarrow> r' = r"
    using inverse_unique [OF r(2,3,4)] by blast
  with r show "\<exists>r. mul_inv a m = Inr r \<and> 0 \<le> r \<and> r < m \<and> (a * r) mod m = 1
            \<and> (\<forall>r'. 0 \<le> r' \<and> r' < m \<and> (a * r') mod m = 1 \<longrightarrow> r' = r)"
    by blast
qed

theorem mul_inv_contract_witness:
  "mul_inv 143 7 = Inr 5 \<and> (143 * 5) mod 7 = (1 :: int)
   \<and> mul_inv 6 4 = Inl ZeroDivisionError \<and> gcd 6 4 \<noteq> (1 :: int)"
proof -
  have a: "(1 :: int) \<le> 143" "(2 :: int) \<le> 7" "(1 :: int) \<le> 6" "(2 :: int) \<le> 4"
    by simp_all
  have g: "gcd 6 4 \<noteq> (1 :: int)"
    by code_simp
  have "mul_inv 6 4 = Inl ZeroDivisionError"
    using mul_inv_contract [OF a(3,4), THEN conjunct2, THEN conjunct1, THEN mp, OF g] .
  moreover have "mul_inv 143 7 = Inr 5"
    by code_simp
  ultimately show ?thesis
    using g by simp
qed

section \<open>Properties of \<open>chinese_remainder\<close>\<close>

lemma foldl_times_prod_list:
  "foldl (*) (x :: int) xs = x * prod_list xs"
  by (induction xs arbitrary: x) (simp_all add: mult.assoc)

lemma prod_list_pos:
  "\<forall>n \<in> set ns. (0 :: int) < n \<Longrightarrow> 0 < prod_list ns"
  by (induction ns) simp_all

lemma prod_list_dvd_coprime:
  fixes z :: int
  assumes "\<forall>n \<in> set ns. n dvd z" and "distinct ns"
    and "\<forall>x \<in> set ns. \<forall>y \<in> set ns. x \<noteq> y \<longrightarrow> coprime x y"
  shows "prod_list ns dvd z"
  using assms
proof (induction ns)
  case Nil
  then show ?case by simp
next
  case (Cons n ns)
  have "coprime n (prod_list ns)"
    by (rule prod_list_coprime_right) (use Cons.prems in auto)
  moreover have "n dvd z" using Cons.prems by simp
  moreover have "prod_list ns dvd z"
    by (rule Cons.IH) (use Cons.prems in auto)
  ultimately show ?case
    by (simp add: divides_mult)
qed

text \<open>The quotient of the product by one modulus, and what divides it.\<close>

lemma prod_list_div_member:
  fixes n :: int
  assumes "n \<in> set ns" and "distinct ns" and "\<forall>k \<in> set ns. 1 < k"
    and "\<forall>x \<in> set ns. \<forall>y \<in> set ns. x \<noteq> y \<longrightarrow> coprime x y"
  shows "1 \<le> prod_list ns div n"
    and "coprime (prod_list ns div n) n"
    and "\<forall>k \<in> set ns. k \<noteq> n \<longrightarrow> k dvd prod_list ns div n"
proof -
  from assms(1) obtain pre post where ns: "ns = pre @ n # post"
    by (auto simp: in_set_conv_decomp)
  have n0: "n \<noteq> 0" using assms(1,3) by auto
  have q: "prod_list ns div n = prod_list pre * prod_list post"
    using n0 by (simp add: ns mult.left_commute [of _ n])
  have pos: "\<forall>k \<in> set ns. 0 < k"
    using assms(3) by force
  have "0 < prod_list pre"
    by (rule prod_list_pos) (use pos ns in simp)
  moreover have "0 < prod_list post"
    by (rule prod_list_pos) (use pos ns in simp)
  ultimately have "0 < prod_list pre * prod_list post"
    by simp
  then show "1 \<le> prod_list ns div n"
    using q by simp
  have o: "\<forall>k \<in> set pre \<union> set post. k \<noteq> n"
    using assms(2) ns by auto
  have "coprime (prod_list pre) n"
    by (rule prod_list_coprime_left) (use assms(4) o ns in auto)
  moreover have "coprime (prod_list post) n"
    by (rule prod_list_coprime_left) (use assms(4) o ns in auto)
  ultimately show "coprime (prod_list ns div n) n"
    using q by simp
  show "\<forall>k \<in> set ns. k \<noteq> n \<longrightarrow> k dvd prod_list ns div n"
  proof (intro ballI impI)
    fix k assume "k \<in> set ns" "k \<noteq> n"
    then have "k \<in> set pre \<or> k \<in> set post"
      using ns by auto
    then show "k dvd prod_list ns div n"
      using q by (auto dest: prod_list_dvd)
  qed
qed

lemma crt_loop_residues:
  assumes "\<forall>(n_i, a_i) \<in> set ps. 2 \<le> n_i \<and> 1 \<le> P div n_i \<and> coprime (P div n_i) n_i
              \<and> a_i mod n_i = m mod n_i"
    and "distinct (map fst ps)"
    and "\<forall>(n_i, a_i) \<in> set ps. \<forall>(n_j, a_j) \<in> set ps. n_i \<noteq> n_j \<longrightarrow> n_j dvd P div n_i"
  shows "\<exists>s. crt_loop P ps acc = Inr s
           \<and> (\<forall>(n_j, a_j) \<in> set ps. s mod n_j = (acc + m) mod n_j)
           \<and> (\<forall>d. (\<forall>(n_i, a_i) \<in> set ps. d dvd P div n_i) \<longrightarrow> s mod d = acc mod d)"
  using assms
proof (induction ps arbitrary: acc)
  case Nil
  then show ?case by simp
next
  case (Cons pr ps)
  obtain n1 a1 where pr: "pr = (n1, a1)" by (cases pr)
  let ?p = "P div n1"
  have v: "2 \<le> n1" "1 \<le> ?p" "coprime ?p n1" "a1 mod n1 = m mod n1"
    using Cons.prems(1) pr by auto
  have "gcd ?p n1 = 1" using v(3) by simp
  from mul_inv_correct [OF v(2) v(1) this]
  obtain x where x: "mul_inv ?p n1 = Inr x" "(?p * x) mod n1 = 1"
    by blast
  let ?acc = "acc + a1 * x * ?p"
  have step: "crt_loop P (pr # ps) acc = crt_loop P ps ?acc"
    using v(1) x(1) by (simp add: pr Let_def)
  have "\<exists>s. crt_loop P ps ?acc = Inr s
           \<and> (\<forall>(n_j, a_j) \<in> set ps. s mod n_j = (?acc + m) mod n_j)
           \<and> (\<forall>d. (\<forall>(n_i, a_i) \<in> set ps. d dvd P div n_i) \<longrightarrow> s mod d = ?acc mod d)"
    by (rule Cons.IH) (use Cons.prems in auto)
  then obtain s where s: "crt_loop P ps ?acc = Inr s"
      "\<forall>(n_j, a_j) \<in> set ps. s mod n_j = (?acc + m) mod n_j"
      "\<forall>d. (\<forall>(n_i, a_i) \<in> set ps. d dvd P div n_i) \<longrightarrow> s mod d = ?acc mod d"
    by blast
  have others: "\<forall>(n_j, a_j) \<in> set ps. n_j \<noteq> n1"
    using Cons.prems(2) pr by force
  have drop: "(acc + a1 * x * ?p + w) mod d = (acc + w) mod d" if "d dvd ?p" for d w
  proof -
    have "d dvd a1 * x * ?p" using that by simp
    then obtain k where k: "a1 * x * ?p = d * k" ..
    have "acc + a1 * x * ?p + w = (acc + w) + d * k"
      using k by simp
    then show ?thesis
      by (simp only: mod_mult_self2)
  qed
  have a: "\<forall>(n_j, a_j) \<in> set (pr # ps). s mod n_j = (acc + m) mod n_j"
  proof (intro ballI)
    fix pj assume pj: "pj \<in> set (pr # ps)"
    obtain n_j a_j where e: "pj = (n_j, a_j)" by (cases pj)
    show "case pj of (n_j, a_j) \<Rightarrow> s mod n_j = (acc + m) mod n_j"
    proof (cases "pj \<in> set ps")
      case True
      then have "n_j \<noteq> n1" using others e by auto
      then have "n_j dvd ?p"
        using Cons.prems(3) pr e True by fastforce
      moreover have "s mod n_j = (?acc + m) mod n_j"
        using s(2) True e by auto
      ultimately show ?thesis
        using drop [of n_j m] e by simp
    next
      case False
      with pj have "pj = pr" by simp
      then have e1: "n_j = n1" "a_j = a1" using pr e by simp_all
      have "\<forall>(n_i, a_i) \<in> set ps. n1 dvd P div n_i"
        using Cons.prems(3) pr others by fastforce
      then have "s mod n1 = ?acc mod n1"
        using s(3) by blast
      also have "\<dots> = (acc + a1 * (?p * x)) mod n1"
        by (simp add: algebra_simps)
      also have "\<dots> = (acc mod n1 + (a1 * (?p * x)) mod n1) mod n1"
        by (rule mod_add_eq [symmetric])
      also have "(a1 * (?p * x)) mod n1 = ((a1 mod n1) * ((?p * x) mod n1)) mod n1"
        by (rule mod_mult_eq [symmetric])
      also have "\<dots> = m mod n1"
        using x(2) v(4) by simp
      also have "(acc mod n1 + m mod n1) mod n1 = (acc + m) mod n1"
        by (rule mod_add_eq)
      finally show ?thesis using e e1 by simp
    qed
  qed
  have b: "\<forall>d. (\<forall>(n_i, a_i) \<in> set (pr # ps). d dvd P div n_i) \<longrightarrow> s mod d = acc mod d"
  proof (intro allI impI)
    fix d assume d: "\<forall>(n_i, a_i) \<in> set (pr # ps). d dvd P div n_i"
    then have "s mod d = ?acc mod d"
      using s(3) by auto
    moreover have "d dvd ?p" using d pr by auto
    ultimately show "s mod d = acc mod d"
      using drop [of d 0] by simp
  qed
  show ?case
    using step s(1) a b by auto
qed

lemma pairwise_coprime_list:
  fixes ns :: "int list"
  assumes "\<forall>n \<in> set ns. 1 < n"
    and "\<forall>i < length ns. \<forall>j < length ns. i \<noteq> j \<longrightarrow> coprime (ns ! i) (ns ! j)"
  shows "distinct ns" and "\<forall>x \<in> set ns. \<forall>y \<in> set ns. x \<noteq> y \<longrightarrow> coprime x y"
proof -
  show "distinct ns"
    unfolding distinct_conv_nth
  proof (intro allI impI)
    fix i j assume ij: "i < length ns" "j < length ns" "i \<noteq> j"
    show "ns ! i \<noteq> ns ! j"
    proof
      assume e: "ns ! i = ns ! j"
      have "coprime (ns ! i) (ns ! j)" using assms(2) ij by blast
      then have "is_unit (ns ! i)" using e by simp
      then have "\<bar>ns ! i\<bar> = 1" by simp
      moreover have "1 < ns ! i" using assms(1) ij(1) by simp
      ultimately show False by simp
    qed
  qed
  show "\<forall>x \<in> set ns. \<forall>y \<in> set ns. x \<noteq> y \<longrightarrow> coprime x y"
  proof (intro ballI impI)
    fix x y assume "x \<in> set ns" "y \<in> set ns" "x \<noteq> y"
    then obtain i j where "i < length ns" "ns ! i = x" "j < length ns" "ns ! j = y"
      by (auto simp: in_set_conv_nth)
    with \<open>x \<noteq> y\<close> assms(2) show "coprime x y"
      by (metis)
  qed
qed

lemma crt_sum_congruent:
  fixes ns :: "int list"
  assumes "\<forall>n \<in> set ns. 1 < n" and "distinct ns"
    and "\<forall>x \<in> set ns. \<forall>y \<in> set ns. x \<noteq> y \<longrightarrow> coprime x y"
  shows "\<exists>s. crt_loop (prod_list ns) (zip ns (map (\<lambda>n. m mod n) ns)) 0 = Inr s
           \<and> (\<forall>n \<in> set ns. s mod n = m mod n)"
proof -
  let ?P = "prod_list ns"
  let ?ps = "map (\<lambda>n. (n, m mod n)) ns"
  have z: "zip ns (map (\<lambda>n. m mod n) ns) = ?ps"
    by (induction ns) simp_all
  have f: "map fst ?ps = ns"
    by (simp add: comp_def)
  have v: "\<forall>(n_i, a_i) \<in> set ?ps. 2 \<le> n_i \<and> 1 \<le> ?P div n_i \<and> coprime (?P div n_i) n_i
              \<and> a_i mod n_i = m mod n_i"
  proof (clarsimp, intro conjI)
    fix n assume n: "n \<in> set ns"
    show "2 \<le> n" using assms(1) n by force
    show "1 \<le> ?P div n" by (rule prod_list_div_member(1) [OF n assms(2,1,3)])
    show "coprime (?P div n) n" by (rule prod_list_div_member(2) [OF n assms(2,1,3)])
  qed
  have d: "\<forall>(n_i, a_i) \<in> set ?ps. \<forall>(n_j, a_j) \<in> set ?ps. n_i \<noteq> n_j \<longrightarrow> n_j dvd ?P div n_i"
  proof (clarsimp)
    fix n k assume "n \<in> set ns" "k \<in> set ns" "n \<noteq> k"
    then show "k dvd ?P div n"
      using prod_list_div_member(3) [OF _ assms(2,1,3), of n] by auto
  qed
  have "\<exists>s. crt_loop ?P ?ps 0 = Inr s
           \<and> (\<forall>(n_j, a_j) \<in> set ?ps. s mod n_j = (0 + m) mod n_j)
           \<and> (\<forall>d. (\<forall>(n_i, a_i) \<in> set ?ps. d dvd ?P div n_i) \<longrightarrow> s mod d = 0 mod d)"
    by (rule crt_loop_residues [OF v _ d]) (simp add: comp_def assms(2))
  then obtain s where s: "crt_loop ?P ?ps 0 = Inr s"
      "\<forall>(n_j, a_j) \<in> set ?ps. s mod n_j = (0 + m) mod n_j"
    by blast
  have "\<forall>n \<in> set ns. s mod n = m mod n"
    using s(2) by auto
  with s(1) z show ?thesis by simp
qed

lemma residues_determine:
  fixes ns :: "int list"
  assumes "distinct ns" and "\<forall>x \<in> set ns. \<forall>y \<in> set ns. x \<noteq> y \<longrightarrow> coprime x y"
    and "\<forall>n \<in> set ns. s mod n = m mod n"
  shows "s mod prod_list ns = m mod prod_list ns"
proof -
  have "\<forall>n \<in> set ns. n dvd s - m"
    using assms(3) by (simp add: mod_eq_dvd_iff)
  then have "prod_list ns dvd s - m"
    using assms(1,2) by (rule prod_list_dvd_coprime)
  then show ?thesis
    by (simp add: mod_eq_dvd_iff)
qed

lemma chinese_remainder_unfold:
  assumes "ns \<noteq> []"
  shows "chinese_remainder ns a =
     (case crt_loop (prod_list ns) (zip ns a) 0 of
        Inl err \<Rightarrow> Inl err
      | Inr s \<Rightarrow>
          if prod_list ns = 0 then Inl ZeroDivisionError else Inr (s mod prod_list ns))"
proof -
  obtain n0 rest where ns: "ns = n0 # rest"
    using assms by (cases ns) auto
  have "foldl (*) n0 rest = prod_list (n0 # rest)"
    by (simp add: foldl_times_prod_list)
  then show ?thesis
    unfolding chinese_remainder_def ns list.case Let_def by (simp only:)
qed

text \<open>
  Claim C3 (CRT round trip): for a non-empty list of pairwise coprime moduli, each
  greater than 1, and any integer \<open>m\<close>, \<open>chinese_remainder\<close> applied to the moduli
  and the residues \<open>m mod n_i\<close> returns \<open>m mod (product of the n_i)\<close>, which is the
  only value in \<open>[0, product)\<close> with these residues.
\<close>

theorem chinese_remainder_round_trip:
  assumes "ns \<noteq> []" and "\<forall>n \<in> set ns. 1 < n"
    and "\<forall>i < length ns. \<forall>j < length ns. i \<noteq> j \<longrightarrow> coprime (ns ! i) (ns ! j)"
  shows "chinese_remainder ns (map (\<lambda>n. m mod n) ns) = Inr (m mod prod_list ns)
    \<and> 0 \<le> m mod prod_list ns \<and> m mod prod_list ns < prod_list ns
    \<and> (\<forall>r. 0 \<le> r \<and> r < prod_list ns \<and> (\<forall>n \<in> set ns. r mod n = m mod n)
          \<longrightarrow> r = m mod prod_list ns)"
proof -
  note pc = pairwise_coprime_list [OF assms(2,3)]
  have pos: "0 < prod_list ns"
    by (rule prod_list_pos) (use assms(2) in force)
  from crt_sum_congruent [OF assms(2) pc, of m]
  obtain s where s: "crt_loop (prod_list ns) (zip ns (map (\<lambda>n. m mod n) ns)) 0 = Inr s"
      "\<forall>n \<in> set ns. s mod n = m mod n"
    by blast
  have "s mod prod_list ns = m mod prod_list ns"
    using pc s(2) by (rule residues_determine)
  then have 1: "chinese_remainder ns (map (\<lambda>n. m mod n) ns) = Inr (m mod prod_list ns)"
    using s(1) pos by (simp add: chinese_remainder_unfold [OF assms(1)])
  have 2: "0 \<le> m mod prod_list ns \<and> m mod prod_list ns < prod_list ns"
    using pos by simp
  have 3: "\<forall>r. 0 \<le> r \<and> r < prod_list ns \<and> (\<forall>n \<in> set ns. r mod n = m mod n)
          \<longrightarrow> r = m mod prod_list ns"
  proof (intro allI impI)
    fix r assume r: "0 \<le> r \<and> r < prod_list ns \<and> (\<forall>n \<in> set ns. r mod n = m mod n)"
    then have "r mod prod_list ns = m mod prod_list ns"
      using pc by (intro residues_determine) auto
    then show "r = m mod prod_list ns"
      using r by simp
  qed
  from 1 2 3 show ?thesis by blast
qed

theorem chinese_remainder_round_trip_witness:
  "chinese_remainder [7, 11, 13] (map (\<lambda>n. 125 mod n) [7, 11, 13]) = Inr 125"
proof -
  have a: "[7, 11, 13 :: int] \<noteq> []" "\<forall>n \<in> set [7, 11, 13 :: int]. 1 < n"
    by simp_all
  have c: "\<forall>i < length [7, 11, 13 :: int]. \<forall>j < length [7, 11, 13 :: int].
          i \<noteq> j \<longrightarrow> coprime ([7, 11, 13 :: int] ! i) ([7, 11, 13] ! j)"
  proof (intro allI impI)
    fix i j assume "i < length [7, 11, 13 :: int]" "j < length [7, 11, 13 :: int]" "i \<noteq> j"
    then consider "i = 0 \<and> j = 1" | "i = 0 \<and> j = 2" | "i = 1 \<and> j = 0" | "i = 1 \<and> j = 2"
      | "i = 2 \<and> j = 0" | "i = 2 \<and> j = 1"
      by (auto simp: less_Suc_eq numeral_3_eq_3)
    then show "coprime ([7, 11, 13 :: int] ! i) ([7, 11, 13] ! j)"
    proof cases
      case 1 then show ?thesis by (simp add: coprime_iff_gcd_eq_1) code_simp
    next
      case 2 then show ?thesis by (simp add: coprime_iff_gcd_eq_1) code_simp
    next
      case 3 then show ?thesis by (simp add: coprime_iff_gcd_eq_1) code_simp
    next
      case 4 then show ?thesis by (simp add: coprime_iff_gcd_eq_1) code_simp
    next
      case 5 then show ?thesis by (simp add: coprime_iff_gcd_eq_1) code_simp
    next
      case 6 then show ?thesis by (simp add: coprime_iff_gcd_eq_1) code_simp
    qed
  qed
  show ?thesis
    using chinese_remainder_round_trip [OF a c, of 125, THEN conjunct1] by simp
qed

section \<open>Properties of \<open>find_invpow\<close>\<close>

text \<open>
  For \<open>n \<ge> 1\<close> the doubling loop ends, at the first power of two \<open>high\<close> with
  \<open>x \<le> high ^ n\<close>; the bisection keeps \<open>low ^ n < x \<le> high ^ n\<close> and returns a
  value below \<open>high\<close>.
\<close>

lemma find_high_spec:
  assumes "1 \<le> n" and "1 \<le> h"
  shows "\<exists>h'. find_high x n h = Some h' \<and> x \<le> h' ^ n \<and> (h' = h \<or> (h' div 2) ^ n < x)
           \<and> (\<exists>k. h' = h * 2 ^ k)"
  using assms(2)
proof (induction "nat (x - h)" arbitrary: h rule: less_induct)
  case less
  show ?case
  proof (cases "h ^ n < x")
    case False
    then have "find_high x n h = Some h"
      by (simp add: find_high.simps)
    moreover have "h = h * 2 ^ 0" by simp
    ultimately show ?thesis using False by (metis not_less)
  next
    case True
    have "h \<le> h ^ n"
      using less.prems assms(1) by (metis self_le_power less_le_trans zero_less_one order_less_le_trans
          less_eq_Suc_le One_nat_def)
    then have hx: "h < x" using True by simp
    then have m: "nat (x - h * 2) < nat (x - h)"
      using less.prems by simp
    have "1 \<le> h * 2" using less.prems by simp
    from less.hyps [OF m this]
    obtain h' k where h': "find_high x n (h * 2) = Some h'" "x \<le> h' ^ n"
        "h' = h * 2 \<or> (h' div 2) ^ n < x" "h' = h * 2 * 2 ^ k"
      by blast
    have "find_high x n h = Some h'"
      using True h'(1) by (simp add: find_high.simps [of x n h])
    moreover have "(h' div 2) ^ n < x"
      using h'(3) True by auto
    moreover have "h' = h * 2 ^ Suc k"
      using h'(4) by simp
    ultimately show ?thesis
      using h'(2) by blast
  qed
qed

lemma bisect_spec:
  assumes "1 \<le> n" and "0 \<le> low" and "low < high" and "low ^ n < x" and "x \<le> high ^ n"
    and "x < high ^ n \<or> high = H"
  shows "\<exists>r. bisect x n low high mid0 = Inr r \<and> low \<le> r \<and> r < high \<and> r ^ n \<le> x
           \<and> (x < (r + 1) ^ n \<or> (r + 1 = H \<and> x = H ^ n))"
  using assms
proof (induction x n low high mid0 rule: bisect.induct)
  case (1 x n low high mid0)
  let ?mid = "(low + high) div 2"
  have mid: "low \<le> ?mid" "?mid < high"
    using "1.prems"(3) by simp_all
  show ?case
  proof (cases "low < ?mid \<and> ?mid ^ n < x")
    case True
    have "\<exists>r. bisect x n ?mid high (Some ?mid) = Inr r \<and> ?mid \<le> r \<and> r < high \<and> r ^ n \<le> x
           \<and> (x < (r + 1) ^ n \<or> (r + 1 = H \<and> x = H ^ n))"
      using "1.IH"(1) [OF "1.prems"(3) refl True] "1.prems" mid True by simp
    moreover have "bisect x n low high mid0 = bisect x n ?mid high (Some ?mid)"
      using "1.prems"(3) True by (simp add: bisect.simps [of x n low high] Let_def)
    ultimately show ?thesis
      using mid(1) by auto
  next
    case nl: False
    show ?thesis
    proof (cases "?mid < high \<and> x < ?mid ^ n")
      case True
      have lm: "low < ?mid"
      proof (rule ccontr)
        assume "\<not> low < ?mid"
        then have "?mid = low" using mid(1) by simp
        then show False using True "1.prems"(4) by simp
      qed
      have "\<exists>r. bisect x n low ?mid (Some ?mid) = Inr r \<and> low \<le> r \<and> r < ?mid \<and> r ^ n \<le> x
           \<and> (x < (r + 1) ^ n \<or> (r + 1 = H \<and> x = H ^ n))"
        using "1.IH"(2) [OF "1.prems"(3) refl nl] True "1.prems" lm by simp
      moreover have "bisect x n low high mid0 = bisect x n low ?mid (Some ?mid)"
        using "1.prems"(3) nl True by (simp add: bisect.simps [of x n low high] Let_def)
      ultimately show ?thesis
        using mid(2) by auto
    next
      case nh: False
      have ret: "bisect x n low high mid0 = Inr ?mid"
        using "1.prems"(3) nl nh by (auto simp: bisect.simps [of x n low high] Let_def)
      have le: "?mid ^ n \<le> x"
        using nh mid(2) by simp
      show ?thesis
      proof (cases "low < ?mid")
        case True
        then have "x = ?mid ^ n" using nl le by simp
        moreover have "?mid ^ n < (?mid + 1) ^ n"
          by (rule power_strict_mono) (use "1.prems"(1,2) mid(1) in simp_all)
        ultimately show ?thesis
          using ret mid by simp
      next
        case False
        then have e: "?mid = low" using mid(1) by simp
        then have h: "high = low + 1" using "1.prems"(3) by linarith
        show ?thesis
          using ret mid le e h "1.prems"(5,6) by auto
      qed
    qed
  qed
qed

lemma find_invpow_zero:
  assumes "1 \<le> n"
  shows "find_invpow 0 n = Some (Inr 0)"
proof -
  obtain m where "n = Suc m" using assms by (cases n) auto
  then show ?thesis
    by (simp add: find_invpow_def find_high.simps bisect.simps)
qed

lemma find_invpow_core:
  assumes "1 \<le> n" and "1 \<le> x"
  shows "\<exists>r H k. find_invpow x n = Some (Inr r) \<and> H = 2 ^ k \<and> x \<le> H ^ n
           \<and> (H = 1 \<or> (H div 2) ^ n < x) \<and> 0 \<le> r \<and> r < H \<and> r ^ n \<le> x
           \<and> (x < (r + 1) ^ n \<or> (r + 1 = H \<and> x = H ^ n))"
proof -
  from find_high_spec [OF assms(1), of 1 x]
  obtain H k where H: "find_high x n 1 = Some H" "x \<le> H ^ n" "H = 1 \<or> (H div 2) ^ n < x"
      "H = 2 ^ k"
    by auto
  have Hpos: "1 \<le> H" using H(4) by simp
  have low: "(H div 2) ^ n < x"
  proof (cases "H = 1")
    case True
    then show ?thesis using assms by (simp add: power_0_left)
  next
    case False
    then show ?thesis using H(3) by simp
  qed
  have "0 \<le> H div 2" "H div 2 < H"
    using Hpos by simp_all
  from bisect_spec [OF assms(1) this low H(2), of H None]
  obtain r where r: "bisect x n (H div 2) H None = Inr r" "H div 2 \<le> r" "r < H" "r ^ n \<le> x"
      "x < (r + 1) ^ n \<or> (r + 1 = H \<and> x = H ^ n)"
    by auto
  have "find_invpow x n = Some (Inr r)"
    using H(1) r(1) by (simp add: find_invpow_def)
  moreover have "0 \<le> r" using r(2) \<open>0 \<le> H div 2\<close> by simp
  ultimately show ?thesis
    using H(2,3,4) r(3,4,5) by blast
qed

text \<open>
  Away from the \<open>n\<close>-th powers of the powers of two, \<open>find_invpow\<close> returns, and
  what it returns is the integer part of the \<open>n\<close>-th root.
\<close>

lemma find_invpow_floor_root:
  assumes "1 \<le> n" and "0 \<le> x" and "\<forall>k. x \<noteq> (2 ^ k) ^ n"
  shows "\<exists>r. find_invpow x n = Some (Inr r) \<and> 0 \<le> r \<and> r ^ n \<le> x \<and> x < (r + 1) ^ n"
proof (cases "x = 0")
  case True
  then show ?thesis
    using assms(1) by (simp add: find_invpow_zero power_0_left)
next
  case False
  then have "1 \<le> x" using assms(2) by simp
  from find_invpow_core [OF assms(1) this] assms(3) show ?thesis
    by metis
qed

text \<open>
  At the \<open>n\<close>-th power of a power of two the result is one below the root, for
  every exponent \<open>n \<ge> 1\<close>.
\<close>

lemma find_invpow_at_power_of_two:
  assumes "1 \<le> n"
  shows "find_invpow ((2 ^ k) ^ n) n = Some (Inr (2 ^ k - 1))"
proof -
  let ?x = "(2 ^ k :: int) ^ n"
  have n0: "0 < n" using assms by simp
  have "1 \<le> ?x" by simp
  from find_invpow_core [OF assms this]
  obtain r H j where r: "find_invpow ?x n = Some (Inr r)" "H = 2 ^ j" "?x \<le> H ^ n"
      "H = 1 \<or> (H div 2) ^ n < ?x" "0 \<le> r" "r < H" "r ^ n \<le> ?x"
      "?x < (r + 1) ^ n \<or> (r + 1 = H \<and> ?x = H ^ n)"
    by blast
  have "r + 1 = 2 ^ k"
  proof (cases "?x < (r + 1) ^ n")
    case False
    then have "r + 1 = H" "?x = H ^ n" using r(8) by simp_all
    moreover have "H = 2 ^ k"
      using \<open>?x = H ^ n\<close> r(2) n0 by (metis power_eq_imp_eq_base zero_le_numeral zero_le_power)
    ultimately show ?thesis by simp
  next
    case True
    have "2 ^ k < r + 1"
      by (rule power_less_imp_less_base [OF True]) (use r(5) in simp)
    then have ge: "2 ^ k \<le> r" by simp
    have "\<not> 2 ^ k < r"
    proof
      assume "2 ^ k < r"
      then have "?x < r ^ n"
        using n0 by (simp add: power_strict_mono)
      then show False using r(7) by simp
    qed
    with ge have e: "r = 2 ^ k" by simp
    then have kj: "k < j"
      using r(6) r(2) by simp
    then have "(2 :: int) ^ 0 < 2 ^ j"
      by (intro power_strict_increasing) simp_all
    then have "H \<noteq> 1"
      using r(2) by simp
    then have "(H div 2) ^ n < ?x" using r(4) by simp
    then have "H div 2 < 2 ^ k"
      by (rule power_less_imp_less_base) simp
    moreover obtain j' where "j = Suc j'" using kj by (cases j) auto
    ultimately have "(2 :: int) ^ j' < 2 ^ k"
      using r(2) by simp
    then have "j' < k" by simp
    with \<open>j = Suc j'\<close> kj show ?thesis by simp
  qed
  then have "r = 2 ^ k - 1" by simp
  with r(1) show ?thesis by simp
qed

text \<open>
  Claim C2 (integer k-th root round trip: the root of \<open>x ^ k\<close> is \<open>x\<close>). The code
  breaks it: the doubling loop stops at \<open>high ^ n = x\<close>, the bisection only ever
  tries \<open>mid < high\<close>, and the root \<open>high\<close> itself is never returned. At
  \<open>x = 1\<close>, \<open>k = 1\<close> the code returns 0, and at \<open>x = 2\<close>, \<open>k = 3\<close> it returns 1
  for the cube 8. The two lemmas above give the whole picture: the result is the
  integer root except at the powers of the powers of two, where it is one less.
\<close>

theorem find_invpow_power_of_two_off_by_one:
  "find_invpow (1 ^ 1) 1 = Some (Inr 0) \<and> find_invpow (2 ^ 3) 3 = Some (Inr 1)"
  by (simp add: find_invpow_def find_high.simps bisect.simps)

section \<open>Properties of the H\aa stad attack\<close>

text \<open>
  Claim C1 (H\aa stad end to end: with \<open>e = 3\<close>, three pairwise coprime moduli and
  \<open>c_i = m ^ 3 mod n_i\<close>, \<open>m ^ 3\<close> below the product, the attack returns the minimal
  big-endian bytes of \<open>m\<close> and no key). The code breaks it in two ways. For
  \<open>m = 5\<close> and the moduli 7, 11, 13 the root 5 is found, but \<open>hex(5)[2:]\<close> is the
  single digit \<open>5\<close> and \<open>bytes.fromhex\<close> raises ValueError on an odd number of
  digits. For \<open>m = 32\<close> and the moduli 31, 37, 41 the root extraction returns 31
  (the defect of \<open>find_invpow\<close> at powers of two), and the plaintext returned is
  the byte 31 instead of 32.
\<close>

theorem hastads_attack_small_plaintext_fails:
  "(hastads_attack
      (Listed [\<lparr>pk_n = 7, pk_e = 3, pk_p = None, pk_q = None\<rparr>, \<lparr>pk_n = 11, pk_e = 3, pk_p = None, pk_q = None\<rparr>, \<lparr>pk_n = 13, pk_e = 3, pk_p = None, pk_q = None\<rparr>])
      [[6], [4], [8]] :: (error + unit attack_result) option) = Some (Inl ValueError)
   \<and> (hastads_attack
      (Listed [\<lparr>pk_n = 31, pk_e = 3, pk_p = None, pk_q = None\<rparr>, \<lparr>pk_n = 37, pk_e = 3, pk_p = None, pk_q = None\<rparr>, \<lparr>pk_n = 41, pk_e = 3, pk_p = None, pk_q = None\<rparr>])
      [[1], [23], [9]] :: (error + unit attack_result) option) = Some (Inr (None, Some [31]))"
  by code_simp

text \<open>The guard of the attack: the exponents of the usable keys are not one value.\<close>

lemma hastads_attack_guard:
  assumes "card (set (map pk_e (filter (\<lambda>k. pk_e k < 11) pks))) \<noteq> 1"
  shows "hastads_attack (Listed pks) cipher = Some (Inr (None, None))"
proof -
  have "length (remdups (map pk_e (filter (\<lambda>k. pk_e k < 11) pks))) \<noteq> 1"
    using assms by (simp add: length_remdups_card_conv)
  then show ?thesis
    by (simp add: hastads_attack_def Let_def)
qed

lemma hastads_attack_one_key:
  "(hastads_attack (Listed [\<lparr>pk_n = 10007, pk_e = 3, pk_p = None, pk_q = None\<rparr>]) [[0x13, 0x31]]
      :: (error + unit attack_result) option) = Some (Inr (None, Some [0x11]))"
  by code_simp

text \<open>
  Claim C6 as stated (the empty result whenever the exponents of the usable keys
  are not a singleton, and also whenever fewer than two usable keys are supplied)
  fails in its last part: with the single key \<open>(n, e) = (10007, 3)\<close> and the
  ciphertext \<open>17 ^ 3 = 4913\<close> the attack returns the plaintext byte 17.
\<close>

theorem hastads_attack_one_usable_key_counterexample:
  "\<not> (\<forall>pks cipher. length (filter (\<lambda>k. pk_e k < 11) pks) < 2 \<longrightarrow>
        (hastads_attack (Listed pks) cipher :: (error + unit attack_result) option)
          = Some (Inr (None, None)))"
proof
  assume a: "\<forall>pks cipher. length (filter (\<lambda>k. pk_e k < 11) pks) < 2 \<longrightarrow>
        (hastads_attack (Listed pks) cipher :: (error + unit attack_result) option)
          = Some (Inr (None, None))"
  have "(hastads_attack (Listed [\<lparr>pk_n = 10007, pk_e = 3, pk_p = None, pk_q = None\<rparr>]) [[0x13, 0x31]]
      :: (error + unit attack_result) option) = Some (Inr (None, None))"
    by (rule a [rule_format]) simp
  then show False
    by (simp add: hastads_attack_one_key)
qed

text \<open>
  Claim C6, amended: the attack returns the empty result whenever the set of
  public exponents among the usable keys (those with \<open>e < 11\<close>) is not a
  singleton; in particular when every supplied key has \<open>e \<ge> 11\<close> (this covers no
  usable key at all) and when two usable keys have different exponents. Nothing
  is promised for exactly one usable key.
\<close>

theorem hastads_attack_exponents_not_singleton:
  "(card (set (map pk_e (filter (\<lambda>k. pk_e k < 11) pks))) \<noteq> 1 \<longrightarrow>
      hastads_attack (Listed pks) cipher = Some (Inr (None, None)))
   \<and> ((\<forall>k \<in> set pks. 11 \<le> pk_e k) \<longrightarrow>
      hastads_attack (Listed pks) cipher = Some (Inr (None, None)))
   \<and> ((\<exists>k1 \<in> set pks. \<exists>k2 \<in> set pks. pk_e k1 < 11 \<and> pk_e k2 < 11 \<and> pk_e k1 \<noteq> pk_e k2) \<longrightarrow>
      hastads_attack (Listed pks) cipher = Some (Inr (None, None)))"
proof (intro conjI impI)
  assume "card (set (map pk_e (filter (\<lambda>k. pk_e k < 11) pks))) \<noteq> 1"
  then show "hastads_attack (Listed pks) cipher = Some (Inr (None, None))"
    by (rule hastads_attack_guard)
next
  assume "\<forall>k \<in> set pks. 11 \<le> pk_e k"
  then have "filter (\<lambda>k. pk_e k < 11) pks = []"
    by (auto simp: filter_empty_conv)
  then have "card (set (map pk_e (filter (\<lambda>k. pk_e k < 11) pks))) \<noteq> 1"
    by simp
  then show "hastads_attack (Listed pks) cipher = Some (Inr (None, None))"
    by (rule hastads_attack_guard)
next
  assume "\<exists>k1 \<in> set pks. \<exists>k2 \<in> set pks. pk_e k1 < 11 \<and> pk_e k2 < 11 \<and> pk_e k1 \<noteq> pk_e k2"
  then obtain k1 k2 where k: "k1 \<in> set pks" "k2 \<in> set pks" "pk_e k1 < 11" "pk_e k2 < 11"
      "pk_e k1 \<noteq> pk_e k2"
    by blast
  let ?E = "set (map pk_e (filter (\<lambda>k. pk_e k < 11) pks))"
  have "pk_e k1 \<in> ?E" and "pk_e k2 \<in> ?E"
    using k by auto
  then have "card ?E \<noteq> 1"
    using k(5) by (metis card_1_singletonE singletonD)
  then show "hastads_attack (Listed pks) cipher = Some (Inr (None, None))"
    by (rule hastads_attack_guard)
qed

theorem hastads_attack_exponents_not_singleton_witness:
  "(hastads_attack (Listed [\<lparr>pk_n = 7, pk_e = 3, pk_p = None, pk_q = None\<rparr>, \<lparr>pk_n = 11, pk_e = 5, pk_p = None, pk_q = None\<rparr>]) [[1], [2]]
      :: (error + unit attack_result) option) = Some (Inr (None, None))
   \<and> (hastads_attack (Listed [\<lparr>pk_n = 7, pk_e = 17, pk_p = None, pk_q = None\<rparr>]) [[1]]
      :: (error + unit attack_result) option) = Some (Inr (None, None))"
proof -
  have m: "card (set (map pk_e (filter (\<lambda>k. pk_e k < 11) [\<lparr>pk_n = 7, pk_e = 3, pk_p = None, pk_q = None\<rparr>, \<lparr>pk_n = 11, pk_e = 5, pk_p = None, pk_q = None\<rparr>]))) \<noteq> 1"
    by simp
  have b: "\<forall>k \<in> set [\<lparr>pk_n = 7, pk_e = 17, pk_p = None, pk_q = None\<rparr>]. 11 \<le> pk_e k"
    by simp
  show ?thesis
    using hastads_attack_exponents_not_singleton
            [of "[\<lparr>pk_n = 7, pk_e = 3, pk_p = None, pk_q = None\<rparr>, \<lparr>pk_n = 11, pk_e = 5, pk_p = None, pk_q = None\<rparr>]" "[[1], [2]]", THEN conjunct1, THEN mp, OF m]
          hastads_attack_exponents_not_singleton
            [of "[\<lparr>pk_n = 7, pk_e = 17, pk_p = None, pk_q = None\<rparr>]" "[[1]]", THEN conjunct2, THEN conjunct1, THEN mp, OF b]
    by simp
qed

section \<open>Inapplicable inputs and exceptions\<close>

text \<open>
  Claim C7 as stated (whenever an attack is not applicable or its method fails,
  the entry point returns the empty result and never raises) fails: the moduli 4
  and 6 are not coprime, the modular inverse does not exist, and the
  ZeroDivisionError of \<open>mul_inv\<close> leaves \<open>hastads_attack\<close> uncaught.
\<close>

theorem hastads_attack_raises_counterexample:
  "\<not> (\<forall>pks cipher. \<exists>r.
        (hastads_attack (Listed pks) cipher :: (error + unit attack_result) option)
          = Some (Inr r))"
proof
  assume a: "\<forall>pks cipher. \<exists>r.
        (hastads_attack (Listed pks) cipher :: (error + unit attack_result) option)
          = Some (Inr r)"
  have "(hastads_attack (Listed [\<lparr>pk_n = 4, pk_e = 3, pk_p = None, pk_q = None\<rparr>, \<lparr>pk_n = 6, pk_e = 3, pk_p = None, pk_q = None\<rparr>]) [[1], [1]]
          :: (error + unit attack_result) option) = Some (Inl ZeroDivisionError)"
    by code_simp
  with a show False
    by (metis Inl_Inr_False option.inject)
qed

text \<open>
  Claim C7, amended: each entry point returns the empty result, without raising
  and with the key object untouched, on the inputs its own guards recognise.
  The H\aa stad attack does so when \<open>publickeys\<close> is not a list and when the
  exponents of the usable keys are not a singleton; the Boneh--Durfee attack when
  \<open>factor\<close> raises OverflowError or returns \<open>None\<close>; the small-fraction attack
  when the external call raises CalledProcessError or TimeoutExpired or prints
  an integer that is not positive. Other exceptions are not caught by the entry
  points.
\<close>

theorem attacks_empty_result_on_guarded_inputs:
  "hastads_attack (Single k) cipher = Some (Inr (None, None))
   \<and> (card (set (map pk_e (filter (\<lambda>k. pk_e k < 11) pks))) \<noteq> 1 \<longrightarrow>
        hastads_attack (Listed pks) cipher = Some (Inr (None, None)))
   \<and> (factor (pk_n publickey) (pk_e publickey) = Inl OverflowError \<or>
      factor (pk_n publickey) (pk_e publickey) = Inr None \<longrightarrow>
        boneh_durfee_attack factor rsa_construct PrivateKey publickey
          = (Inr (None, None), publickey))
   \<and> (sage (pk_n publickey) = Inl CalledProcessError \<or>
      sage (pk_n publickey) = Inl TimeoutExpired \<or>
      (\<exists>r. sage (pk_n publickey) = Inr r \<and> r \<le> 0) \<longrightarrow>
        smallfraction_attack sage PrivateKey publickey = (Inr (None, None), publickey))"
proof (intro conjI impI)
  show "hastads_attack (Single k) cipher = Some (Inr (None, None))"
    by (simp add: hastads_attack_def)
next
  assume "card (set (map pk_e (filter (\<lambda>k. pk_e k < 11) pks))) \<noteq> 1"
  then show "hastads_attack (Listed pks) cipher = Some (Inr (None, None))"
    by (rule hastads_attack_guard)
next
  assume "factor (pk_n publickey) (pk_e publickey) = Inl OverflowError \<or>
      factor (pk_n publickey) (pk_e publickey) = Inr None"
  then show "boneh_durfee_attack factor rsa_construct PrivateKey publickey
          = (Inr (None, None), publickey)"
    by (auto simp: boneh_durfee_attack_def)
next
  assume "sage (pk_n publickey) = Inl CalledProcessError \<or>
      sage (pk_n publickey) = Inl TimeoutExpired \<or>
      (\<exists>r. sage (pk_n publickey) = Inr r \<and> r \<le> 0)"
  then show "smallfraction_attack sage PrivateKey publickey = (Inr (None, None), publickey)"
    by (auto simp: smallfraction_attack_def)
qed

theorem attacks_empty_result_on_guarded_inputs_witness:
  "(hastads_attack (Single \<lparr>pk_n = 7, pk_e = 3, pk_p = None, pk_q = None\<rparr>) [[1], [2]] :: (error + unit attack_result) option)
      = Some (Inr (None, None))
   \<and> (hastads_attack (Listed [\<lparr>pk_n = 7, pk_e = 3, pk_p = None, pk_q = None\<rparr>, \<lparr>pk_n = 11, pk_e = 5, pk_p = None, pk_q = None\<rparr>]) [[1], [2]] :: (error + unit attack_result) option)
      = Some (Inr (None, None))
   \<and> (boneh_durfee_attack (\<lambda>n e. Inl OverflowError) (\<lambda>n e d. Inr (3, 5))
        (\<lambda>p q e n d. Inr ()) \<lparr>pk_n = 15, pk_e = 3, pk_p = None, pk_q = None\<rparr> :: (error + unit attack_result) \<times> publickey)
      = (Inr (None, None), \<lparr>pk_n = 15, pk_e = 3, pk_p = None, pk_q = None\<rparr>)
   \<and> (smallfraction_attack (\<lambda>n. Inl TimeoutExpired)
        (\<lambda>p q e n d. Inr ()) \<lparr>pk_n = 15, pk_e = 3, pk_p = None, pk_q = None\<rparr> :: (error + unit attack_result) \<times> publickey)
      = (Inr (None, None), \<lparr>pk_n = 15, pk_e = 3, pk_p = None, pk_q = None\<rparr>)"
proof -
  have m: "card (set (map pk_e (filter (\<lambda>k. pk_e k < 11) [\<lparr>pk_n = 7, pk_e = 3, pk_p = None, pk_q = None\<rparr>, \<lparr>pk_n = 11, pk_e = 5, pk_p = None, pk_q = None\<rparr>]))) \<noteq> 1"
    by simp
  show ?thesis
    using attacks_empty_result_on_guarded_inputs
            [where k = "\<lparr>pk_n = 7, pk_e = 3, pk_p = None, pk_q = None\<rparr>" and cipher = "[[1], [2]]" and pks = "[\<lparr>pk_n = 7, pk_e = 3, pk_p = None, pk_q = None\<rparr>, \<lparr>pk_n = 11, pk_e = 5, pk_p = None, pk_q = None\<rparr>]"
               and factor = "\<lambda>n e. Inl OverflowError" and publickey = "\<lparr>pk_n = 15, pk_e = 3, pk_p = None, pk_q = None\<rparr>"
               and rsa_construct = "\<lambda>n e d. Inr (3, 5)"
               and PrivateKey = "\<lambda>p q e n d. Inr ()"
               and sage = "\<lambda>n. Inl TimeoutExpired"] m
    by simp
qed

section \<open>Properties of \<open>remove_unhelpful\<close>\<close>

lemma delete_indices_map:
  "delete_indices ds (map f xs) = map f (delete_indices ds xs)"
  by (simp add: delete_indices_def)

lemma map_nth_upt_drop_take:
  "b \<le> length xs \<Longrightarrow> map ((!) xs) [a..<b] = drop a (take b xs)"
  by (rule nth_equalityI) auto

lemma upt_split_at:
  fixes a i n :: nat
  assumes "a \<le> i" and "i < n"
  shows "[a..<n] = [a..<i] @ [i..<n]"
  using assms by (metis le_add_diff_inverse less_imp_le upt_add_eq_append)

lemma delete_indices_one:
  assumes "i < length xs"
  shows "delete_indices [i] xs = take i xs @ drop (Suc i) xs"
proof -
  let ?n = "length xs"
  have "[0..<?n] = [0..<i] @ i # [Suc i..<?n]"
    using assms upt_split_at [of 0 i ?n] by (simp add: upt_conv_Cons)
  moreover have "filter (\<lambda>k. k \<noteq> i) [0..<i] = [0..<i]"
    by (simp add: filter_id_conv)
  moreover have "filter (\<lambda>k. k \<noteq> i) [Suc i..<?n] = [Suc i..<?n]"
    by (simp add: filter_id_conv)
  ultimately have "filter (\<lambda>k. k \<notin> set [i]) [0..<?n] = [0..<i] @ [Suc i..<?n]"
    by simp
  then have "delete_indices [i] xs = map ((!) xs) [0..<i] @ map ((!) xs) [Suc i..<?n]"
    by (simp add: delete_indices_def)
  also have "map ((!) xs) [0..<i] = take i xs"
    using assms by (simp add: map_nth_upt_drop_take)
  also have "map ((!) xs) [Suc i..<?n] = drop (Suc i) xs"
    by (simp add: map_nth_upt_drop_take)
  finally show ?thesis .
qed

lemma delete_indices_two:
  assumes "p < aff" and "aff < length xs"
  shows "delete_indices [aff, p] xs = take p xs @ drop (Suc p) (take aff xs) @ drop (Suc aff) xs"
proof -
  let ?n = "length xs"
  have "[0..<?n] = [0..<p] @ p # [Suc p..<aff] @ aff # [Suc aff..<?n]"
    using assms upt_split_at [of 0 p ?n] upt_split_at [of "Suc p" aff ?n]
    by (simp add: upt_conv_Cons)
  moreover have "filter (\<lambda>k. k \<noteq> aff \<and> k \<noteq> p) [0..<p] = [0..<p]"
    using assms by (simp add: filter_id_conv)
  moreover have "filter (\<lambda>k. k \<noteq> aff \<and> k \<noteq> p) [Suc p..<aff] = [Suc p..<aff]"
    by (simp add: filter_id_conv)
  moreover have "filter (\<lambda>k. k \<noteq> aff \<and> k \<noteq> p) [Suc aff..<?n] = [Suc aff..<?n]"
    using assms by (simp add: filter_id_conv)
  ultimately have "filter (\<lambda>k. k \<notin> set [aff, p]) [0..<?n]
      = [0..<p] @ [Suc p..<aff] @ [Suc aff..<?n]"
    by simp
  then have "delete_indices [aff, p] xs
      = map ((!) xs) [0..<p] @ map ((!) xs) [Suc p..<aff] @ map ((!) xs) [Suc aff..<?n]"
    by (simp add: delete_indices_def)
  also have "map ((!) xs) [0..<p] = take p xs"
    using assms by (simp add: map_nth_upt_drop_take)
  also have "map ((!) xs) [Suc p..<aff] = drop (Suc p) (take aff xs)"
    using assms by (simp add: map_nth_upt_drop_take)
  also have "map ((!) xs) [Suc aff..<?n] = drop (Suc aff) xs"
    by (simp add: map_nth_upt_drop_take)
  finally show ?thesis .
qed

lemma delete_indices_nested:
  assumes "p < aff" and "aff < length xs"
  shows "delete_indices [p] (delete_indices [aff] xs) = delete_indices [aff, p] xs"
proof -
  let ?Y = "take aff xs @ drop (Suc aff) xs"
  have y: "delete_indices [aff] xs = ?Y"
    using assms(2) by (rule delete_indices_one)
  have "p < length ?Y" using assms by simp
  then have "delete_indices [p] ?Y = take p ?Y @ drop (Suc p) ?Y"
    by (rule delete_indices_one)
  also have "take p ?Y = take p xs"
    using assms by (simp add: min_def)
  also have "drop (Suc p) ?Y = drop (Suc p) (take aff xs) @ drop (Suc aff) xs"
    using assms by simp
  finally show ?thesis
    using y delete_indices_two [OF assms] by simp
qed

lemma sorted_wrt_delete_indices:
  fixes ks :: "nat list"
  assumes "sorted_wrt (<) ks"
  shows "sorted_wrt (<) (delete_indices ds ks)"
proof -
  have "sorted_wrt (\<lambda>i j. ks ! i < ks ! j) [0..<length ks]"
    by (rule sorted_wrt_mono_rel [OF _ sorted_wrt_upt])
       (use assms in \<open>auto simp: sorted_wrt_nth_less\<close>)
  then show ?thesis
    by (simp add: delete_indices_def sorted_wrt_map sorted_wrt_filter)
qed

lemma set_delete_indices:
  "set (delete_indices ds xs) = {xs ! k | k. k < length xs \<and> k \<notin> set ds}"
  by (auto simp: delete_indices_def)

lemma strict_sorted_nth_inj:
  fixes ks :: "nat list"
  assumes "sorted_wrt (<) ks" "i < length ks" "j < length ks" "ks ! i = ks ! j"
  shows "i = j"
proof -
  have "distinct ks" using assms(1) by (simp add: strict_sorted_iff)
  then show ?thesis using assms(2-4) by (simp add: nth_eq_iff_index_eq)
qed

lemma submatrix_delete:
  "delete_rows ds (delete_columns ds (submatrix BB0 ks)) = submatrix BB0 (delete_indices ds ks)"
  by (simp add: delete_rows_def delete_columns_def submatrix_def delete_indices_map comp_def)

lemma submatrix_nth:
  "i < length ks \<Longrightarrow> j < length ks \<Longrightarrow> submatrix BB0 ks ! i ! j = BB0 ! (ks ! i) ! (ks ! j)"
  by (simp add: submatrix_def)

lemma submatrix_dims:
  "nrows (submatrix BB0 ks) = length ks" "ks \<noteq> [] \<Longrightarrow> ncols (submatrix BB0 ks) = length ks"
  by (cases ks; simp add: nrows_def ncols_def submatrix_def)+

lemma removable_mono:
  "removable BB bound K i \<Longrightarrow> K' \<subseteq> K \<Longrightarrow> removable BB bound K' i"
  by (auto simp: removable_def)

lemma pruned_ok_mono:
  assumes "pruned_ok BB0 mons0 bound ks' res" and "set ks' \<subseteq> set ks"
  shows "pruned_ok BB0 mons0 bound ks res"
proof -
  from assms(1) obtain ks'' BB' mons' where r: "res = Inr (BB', mons')"
      "set ks'' \<subseteq> set ks'" "kept_inv BB0 mons0 bound ks'' BB' mons'"
    unfolding pruned_ok_def by blast
  from r(2) assms(2) have "set ks'' \<subseteq> set ks" by (rule subset_trans)
  with r(1,3) show ?thesis
    unfolding pruned_ok_def by blast
qed

lemma pruned_ok_refl:
  "kept_inv BB0 mons0 bound ks BB mons \<Longrightarrow> pruned_ok BB0 mons0 bound ks (Inr (BB, mons))"
  by (auto simp: pruned_ok_def)

lemma set_delete_indices_subset:
  "set (delete_indices ds xs) \<subseteq> set xs"
  by (auto simp: set_delete_indices)

lemma kept_inv_delete:
  assumes inv: "kept_inv BB0 mons0 bound ks BB mons"
    and rem: "\<forall>d \<in> set ds. d < length ks \<longrightarrow>
                removable BB0 bound (set (delete_indices ds ks)) (ks ! d)"
  shows "kept_inv BB0 mons0 bound (delete_indices ds ks)
           (delete_rows ds (delete_columns ds BB)) (delete_indices ds mons)"
proof -
  let ?ks = "delete_indices ds ks"
  have BB: "BB = submatrix BB0 ks" and mons: "mons = map ((!) mons0) ks"
    and srt: "sorted_wrt (<) ks" and sub: "set ks \<subseteq> {..<length BB0}"
    and old: "\<forall>i < length BB0. i \<notin> set ks \<longrightarrow> removable BB0 bound (set ks) i"
    using inv by (simp_all add: kept_inv_def)
  have s: "set ?ks \<subseteq> set ks" by (rule set_delete_indices_subset)
  have r: "\<forall>i < length BB0. i \<notin> set ?ks \<longrightarrow> removable BB0 bound (set ?ks) i"
  proof (intro allI impI)
    fix i assume i: "i < length BB0" "i \<notin> set ?ks"
    show "removable BB0 bound (set ?ks) i"
    proof (cases "i \<in> set ks")
      case False
      then have "removable BB0 bound (set ks) i" using old i(1) by simp
      then show ?thesis using s by (rule removable_mono)
    next
      case True
      then obtain q where q: "q < length ks" "ks ! q = i"
        by (auto simp: in_set_conv_nth)
      have "q \<in> set ds"
      proof (rule ccontr)
        assume "q \<notin> set ds"
        then have "ks ! q \<in> set ?ks" using q(1) by (auto simp: set_delete_indices)
        then show False using i(2) q(2) by simp
      qed
      then show ?thesis using rem q by auto
    qed
  qed
  show ?thesis
    unfolding kept_inv_def
    using s sub r by (simp add: BB mons submatrix_delete delete_indices_map
        sorted_wrt_delete_indices [OF srt])
qed

lemma kept_inv_delete_one:
  assumes inv: "kept_inv BB0 mons0 bound ks BB mons"
    and p: "p < length ks" and b: "bound \<le> BB ! p ! p"
  shows "kept_inv BB0 mons0 bound (delete_indices [p] ks)
           (delete_rows [p] (delete_columns [p] BB)) (delete_indices [p] mons)"
proof (rule kept_inv_delete [OF inv], intro ballI impI)
  fix d assume "d \<in> set [p]" "d < length ks"
  then have d: "d = p" by simp
  have "BB = submatrix BB0 ks" using inv by (simp add: kept_inv_def)
  then have "bound \<le> BB0 ! (ks ! p) ! (ks ! p)"
    using b p by (simp add: submatrix_nth)
  then show "removable BB0 bound (set (delete_indices [p] ks)) (ks ! d)"
    by (simp add: removable_def d)
qed

lemma kept_inv_delete_two:
  assumes inv: "kept_inv BB0 mons0 bound ks BB mons"
    and p: "p < aff" and aff: "aff < length ks" and b: "bound \<le> BB ! p ! p"
    and nz: "BB ! aff ! p \<noteq> 0"
  shows "kept_inv BB0 mons0 bound (delete_indices [aff, p] ks)
           (delete_rows [aff, p] (delete_columns [aff, p] BB))
           (delete_indices [p] (delete_indices [aff] mons))"
proof -
  have BB: "BB = submatrix BB0 ks" and mons: "mons = map ((!) mons0) ks"
    and srt: "sorted_wrt (<) ks"
    using inv by (simp_all add: kept_inv_def)
  have pl: "p < length ks" using p aff by simp
  have bp: "bound \<le> BB0 ! (ks ! p) ! (ks ! p)"
    using b pl by (simp add: BB submatrix_nth)
  have nzp: "BB0 ! (ks ! aff) ! (ks ! p) \<noteq> 0"
    using nz pl aff by (simp add: BB submatrix_nth)
  have lt: "ks ! p < ks ! aff"
    using srt p aff by (rule sorted_wrt_nth_less)
  have gone: "ks ! p \<notin> set (delete_indices [aff, p] ks)"
  proof
    assume "ks ! p \<in> set (delete_indices [aff, p] ks)"
    then obtain k where k: "k < length ks" "k \<noteq> aff" "k \<noteq> p" "ks ! k = ks ! p"
      by (auto simp: set_delete_indices)
    then have "k = p" using strict_sorted_nth_inj [OF srt k(1) pl] by simp
    then show False using k(3) by simp
  qed
  have "length mons = length ks" by (simp add: mons)
  then have m: "delete_indices [p] (delete_indices [aff] mons) = delete_indices [aff, p] mons"
    using p aff by (simp add: delete_indices_nested)
  have "kept_inv BB0 mons0 bound (delete_indices [aff, p] ks)
           (delete_rows [aff, p] (delete_columns [aff, p] BB)) (delete_indices [aff, p] mons)"
  proof (rule kept_inv_delete [OF inv], intro ballI impI)
    fix d assume "d \<in> set [aff, p]" "d < length ks"
    then consider "d = p" | "d = aff" by auto
    then show "removable BB0 bound (set (delete_indices [aff, p] ks)) (ks ! d)"
    proof cases
      case 1
      then show ?thesis using bp by (simp add: removable_def)
    next
      case 2
      then show ?thesis
        unfolding removable_def using lt gone bp nzp by blast
    qed
  qed
  then show ?thesis by (simp only: m)
qed

lemma length_delete_indices_one:
  "p < length xs \<Longrightarrow> length (delete_indices [p] xs) = length xs - 1"
  by (simp add: delete_indices_one)

lemma length_delete_indices_two:
  "p < aff \<Longrightarrow> aff < length xs \<Longrightarrow> length (delete_indices [aff, p] xs) = length xs - 2"
  by (simp add: delete_indices_two)

lemma affected_last:
  assumes "length (filter (\<lambda>jj. BB ! jj ! p \<noteq> (0 :: int)) [p + 1..<n]) = 1"
  shows "p < last (filter (\<lambda>jj. BB ! jj ! p \<noteq> 0) [p + 1..<n])"
    and "last (filter (\<lambda>jj. BB ! jj ! p \<noteq> 0) [p + 1..<n]) < n"
    and "BB ! last (filter (\<lambda>jj. BB ! jj ! p \<noteq> 0) [p + 1..<n]) ! p \<noteq> 0"
proof -
  let ?A = "filter (\<lambda>jj. BB ! jj ! p \<noteq> 0) [p + 1..<n]"
  have "?A \<noteq> []" using assms by auto
  then have "last ?A \<in> set ?A" by (rule last_in_set)
  then have "last ?A \<in> set [p + 1..<n] \<and> BB ! last ?A ! p \<noteq> 0"
    by simp
  then show "p < last ?A" "last ?A < n" "BB ! last ?A ! p \<noteq> 0"
    by auto
qed

lemma prune_invariant:
  fixes mons0 :: "'a list"
  shows "\<forall>ks. kept_inv BB0 mons0 bound ks BB mons \<longrightarrow> current < int (length ks) \<longrightarrow>
           pruned_ok BB0 mons0 bound ks (remove_unhelpful BB mons bound current)"
    and "\<forall>ks. kept_inv BB0 mons0 bound ks BB mons \<longrightarrow> ii < int (length ks) \<longrightarrow>
           pruned_ok BB0 mons0 bound ks (unhelpful_scan BB mons bound ii)"
proof (induction BB mons bound current and BB mons bound ii
    rule: remove_unhelpful_unhelpful_scan.induct)
  case (1 BB mons bound current)
  show ?case
  proof (intro allI impI)
    fix ks assume inv: "kept_inv BB0 mons0 bound ks BB mons" and lt: "current < int (length ks)"
    show "pruned_ok BB0 mons0 bound ks (remove_unhelpful BB mons bound current)"
    proof (cases "current = - 1 \<or> nrows BB \<le> dimension_min")
      case True
      then have "remove_unhelpful BB mons bound current = Inr (BB, mons)"
        by (simp add: remove_unhelpful.simps)
      then show ?thesis using inv by (simp add: pruned_ok_refl)
    next
      case False
      then have "remove_unhelpful BB mons bound current = unhelpful_scan BB mons bound current"
        by (simp add: remove_unhelpful.simps)
      then show ?thesis using "1.IH" [OF False] inv lt by simp
    qed
  qed
next
  case (2 BB mons bound ii)
  show ?case
  proof (intro allI impI)
    fix ks assume inv: "kept_inv BB0 mons0 bound ks BB mons" and lt: "ii < int (length ks)"
    have BB: "BB = submatrix BB0 ks" and mons: "mons = map ((!) mons0) ks"
      using inv by (simp_all add: kept_inv_def)
    have lm: "length mons = length ks" by (simp add: mons)
    show "pruned_ok BB0 mons0 bound ks (unhelpful_scan BB mons bound ii)"
    proof (cases "ii < 0")
      case True
      then have "unhelpful_scan BB mons bound ii = Inr (BB, mons)"
        by (simp add: unhelpful_scan.simps)
      then show ?thesis using inv by (simp add: pruned_ok_refl)
    next
      case nneg: False
      let ?p = "nat ii"
      have p: "?p < length ks" using nneg lt by simp
      then have ne: "ks \<noteq> []" by auto
      have nr: "nrows BB = length ks" and nc: "ncols BB = length ks"
        using ne by (simp_all add: BB submatrix_dims)
      have range: "\<not> (nrows BB \<le> ?p \<or> ncols BB \<le> ?p)"
        using p nr nc by simp
      have lt': "ii - 1 < int (length ks)" using lt by simp
      show ?thesis
      proof (cases "bound \<le> BB ! ?p ! ?p")
        case nb: False
        have "unhelpful_scan BB mons bound ii = unhelpful_scan BB mons bound (ii - 1)"
          using nneg range nb by (simp add: unhelpful_scan.simps [of BB mons bound ii])
        then show ?thesis
          using "2.IH"(5) [OF nneg range nb] inv lt' by simp
      next
        case b: True
        let ?A = "filter (\<lambda>jj. BB ! jj ! ?p \<noteq> 0) [?p + 1..<nrows BB]"
        consider (none) "length ?A = 0" | (one) "length ?A = 1" | (many) "length ?A \<noteq> 0" "length ?A \<noteq> 1"
          by blast
        then show ?thesis
        proof cases
          case none
          let ?ks = "delete_indices [?p] ks"
          have ml: "\<not> length mons \<le> ?p" using p lm by simp
          have eq: "unhelpful_scan BB mons bound ii =
              remove_unhelpful (delete_rows [?p] (delete_columns [?p] BB))
                (delete_indices [?p] mons) bound (ii - 1)"
            using nneg range b none ml
            by (simp add: unhelpful_scan.simps [of BB mons bound ii] Let_def)
          have inv': "kept_inv BB0 mons0 bound ?ks (delete_rows [?p] (delete_columns [?p] BB))
                (delete_indices [?p] mons)"
            using inv p b by (rule kept_inv_delete_one)
          have "ii - 1 < int (length ?ks)"
            using p nneg by (simp add: length_delete_indices_one)
          with "2.IH"(1) [OF nneg range b refl refl none ml] inv'
          have "pruned_ok BB0 mons0 bound ?ks (unhelpful_scan BB mons bound ii)"
            by (simp add: eq)
          then show ?thesis
            by (rule pruned_ok_mono) (rule set_delete_indices_subset)
        next
          case one
          let ?aff = "last ?A"
          have one': "length ?A \<noteq> 0" using one by simp
          have ane: "?A \<noteq> []" using one by auto
          note al = affected_last [OF one]
          have affl: "?aff < length ks" using al(2) nr by simp
          have ac: "\<not> ncols BB \<le> ?aff" using affl nc by simp
          let ?deeper = "list_all (\<lambda>kk. BB ! kk ! ?aff = 0) [?aff + 1..<nrows BB]"
          show ?thesis
          proof (cases "?deeper \<and> \<bar>bound - BB ! ?aff ! ?aff\<bar> < \<bar>bound - BB ! ?p ! ?p\<bar>")
            case c: True
            let ?ks = "delete_indices [?aff, ?p] ks"
            have ml: "\<not> length mons \<le> ?aff" using affl lm by simp
            have eq: "unhelpful_scan BB mons bound ii =
                remove_unhelpful (delete_rows [?aff, ?p] (delete_columns [?aff, ?p] BB))
                  (delete_indices [?p] (delete_indices [?aff] mons)) bound (ii - 1)"
              using nneg range b one ane c ml ac
              by (simp add: unhelpful_scan.simps [of BB mons bound ii] Let_def)
            have inv': "kept_inv BB0 mons0 bound ?ks
                  (delete_rows [?aff, ?p] (delete_columns [?aff, ?p] BB))
                  (delete_indices [?p] (delete_indices [?aff] mons))"
              using inv al(1) affl b al(3) by (rule kept_inv_delete_two)
            have "ii - 1 < int (length ?ks)"
              using al(1) affl nneg by (simp add: length_delete_indices_two)
            with "2.IH"(2) [OF nneg range b refl refl one' one refl ac refl c ml] inv'
            have "pruned_ok BB0 mons0 bound ?ks (unhelpful_scan BB mons bound ii)"
              by (simp add: eq)
            then show ?thesis
              by (rule pruned_ok_mono) (rule set_delete_indices_subset)
          next
            case c: False
            have "unhelpful_scan BB mons bound ii = unhelpful_scan BB mons bound (ii - 1)"
              using nneg range b one ane c ac
              by (auto simp: unhelpful_scan.simps [of BB mons bound ii] Let_def)
            then show ?thesis
              using "2.IH"(3) [OF nneg range b refl refl one' one refl ac refl c] inv lt' by simp
          qed
        next
          case many
          have "unhelpful_scan BB mons bound ii = unhelpful_scan BB mons bound (ii - 1)"
            using nneg range b many
            by (simp add: unhelpful_scan.simps [of BB mons bound ii] Let_def)
          then show ?thesis
            using "2.IH"(4) [OF nneg range b refl refl many] inv lt' by simp
        qed
      qed
    qed
  qed
qed

lemma submatrix_all:
  assumes "\<forall>row \<in> set BB. length row = length BB"
  shows "submatrix BB [0..<length BB] = BB"
proof (rule nth_equalityI)
  show "length (submatrix BB [0..<length BB]) = length BB"
    by (simp add: submatrix_def)
next
  fix i assume "i < length (submatrix BB [0..<length BB])"
  then have i: "i < length BB" by (simp add: submatrix_def)
  then have "length (BB ! i) = length BB" using assms by simp
  then have "map (\<lambda>j. BB ! i ! j) [0..<length BB] = BB ! i"
    by (metis map_nth)
  then show "submatrix BB [0..<length BB] ! i = BB ! i"
    using i by (simp add: submatrix_def)
qed

text \<open>
  Claim C10 as stated (rows are deleted only when their diagonal entry is at
  least the bound) fails: in \<open>pruning_example\<close> with the bound 10, row 6 is
  unhelpful and affects row 7 alone, so the code deletes both, and the diagonal
  entry of row 7 is 5. With \<open>current\<close> equal to the dimension the first read,
  \<open>BB[8, 8]\<close>, is out of range and nothing is returned.
\<close>

theorem remove_unhelpful_deletes_affected_row_counterexample:
  "remove_unhelpful pruning_example [0, 1, 2, 3, 4, 5, 6, 7 :: nat] 10 7
     = Inr ([[1, 0, 0, 0, 0, 0],
             [0, 1, 0, 0, 0, 0],
             [0, 0, 1, 0, 0, 0],
             [0, 0, 0, 1, 0, 0],
             [0, 0, 0, 0, 1, 0],
             [0, 0, 0, 0, 0, 1]], [0, 1, 2, 3, 4, 5])
   \<and> pruning_example ! 7 ! 7 < 10
   \<and> remove_unhelpful pruning_example [0, 1, 2, 3, 4, 5, 6, 7 :: nat] 10 8 = Inl IndexError"
  by code_simp

text \<open>
  Claim C10, amended: for a square matrix \<open>BB\<close>, a label list of the same length
  and \<open>current\<close> below the dimension, \<open>remove_unhelpful\<close> returns the rows and
  columns of \<open>BB\<close> at one increasing list of positions \<open>ks\<close>, and the labels at
  the same positions: the result is square, the labels are as many as its rows,
  and a row is only ever deleted together with the column and the label of the
  same index. Every deleted row \<open>i\<close> either has a diagonal entry that reaches
  the bound, or has a nonzero entry in the column of an earlier row \<open>k < i\<close> that
  is deleted too and whose diagonal entry reaches the bound.
\<close>

theorem remove_unhelpful_keeps_in_sync:
  fixes monomials :: "'a list"
  assumes "\<forall>row \<in> set BB. length row = length BB"
    and "length monomials = length BB"
    and "current < int (length BB)"
  shows "\<exists>ks BB' monomials'.
           remove_unhelpful BB monomials bound current = Inr (BB', monomials')
         \<and> BB' = submatrix BB ks \<and> monomials' = map ((!) monomials) ks
         \<and> length monomials' = nrows BB' \<and> (\<forall>row \<in> set BB'. length row = nrows BB')
         \<and> sorted_wrt (<) ks \<and> set ks \<subseteq> {..<length BB}
         \<and> (\<forall>i < length BB. i \<notin> set ks \<longrightarrow>
               (bound \<le> BB ! i ! i
                \<or> (\<exists>k. k < i \<and> k \<notin> set ks \<and> bound \<le> BB ! k ! k \<and> BB ! i ! k \<noteq> 0)))"
proof -
  let ?n = "length BB"
  have "map ((!) monomials) [0..<?n] = monomials"
    using assms(2) by (metis map_nth)
  then have inv: "kept_inv BB monomials bound [0..<?n] BB monomials"
    by (auto simp: kept_inv_def submatrix_all [OF assms(1)])
  have "current < int (length [0..<?n])" using assms(3) by simp
  with prune_invariant(1) [of BB monomials bound BB monomials current] inv
  have "pruned_ok BB monomials bound [0..<?n] (remove_unhelpful BB monomials bound current)"
    by blast
  then obtain ks BB' monomials' where
    r: "remove_unhelpful BB monomials bound current = Inr (BB', monomials')"
    and k: "kept_inv BB monomials bound ks BB' monomials'"
    unfolding pruned_ok_def by blast
  have "length monomials' = nrows BB'" "\<forall>row \<in> set BB'. length row = nrows BB'"
    using k by (auto simp: kept_inv_def submatrix_def nrows_def)
  with r k show ?thesis
    unfolding kept_inv_def removable_def by blast
qed

theorem remove_unhelpful_keeps_in_sync_witness:
  "\<exists>ks BB' monomials'.
     remove_unhelpful pruning_example [0, 1, 2, 3, 4, 5, 6, 7 :: nat] 10 7 = Inr (BB', monomials')
   \<and> BB' = submatrix pruning_example ks
   \<and> monomials' = map ((!) [0, 1, 2, 3, 4, 5, 6, 7 :: nat]) ks
   \<and> length monomials' = nrows BB'
   \<and> sorted_wrt (<) ks \<and> set ks \<subseteq> {..<length pruning_example}"
proof -
  have a: "\<forall>row \<in> set pruning_example. length row = length pruning_example"
    by (simp add: pruning_example_def)
  have b: "length [0, 1, 2, 3, 4, 5, 6, 7 :: nat] = length pruning_example"
    by (simp add: pruning_example_def)
  have c: "7 < int (length pruning_example)"
    by (simp add: pruning_example_def)
  from remove_unhelpful_keeps_in_sync [OF a b c, of 10] show ?thesis
    by blast
qed

section \<open>Properties of the Boneh--Durfee lattice step\<close>

text \<open>
  Claim C8 (strict-mode sentinel): when the determinant of the lattice that
  reaches the check is at least \<open>modulus ^ (mm * nn)\<close>, \<open>boneh_durfee\<close> returns
  \<open>(-1, -1)\<close> in strict mode, a pair different from the no-result pair \<open>(0, 0)\<close>,
  and in lenient mode it goes on with the reduction. \<open>BB'\<close> and \<open>monomials'\<close> are
  the lattice and its labels after the optional pruning, \<open>nn\<close> its dimension; the
  lattice has at least one row.
\<close>

theorem boneh_durfee_strict_sentinel:
  assumes "(if helpful_only
            then remove_unhelpful BB monomials (modulus ^ mm) (int (length monomials) - 1)
            else Inr (BB, monomials)) = Inr (BB', monomials')"
    and "nn = (if helpful_only then nrows BB' else length monomials)"
    and "nn \<noteq> 0"
    and "det BB' \<ge> modulus ^ (mm * nn)"
  shows "boneh_durfee True helpful_only lll_roots BB monomials modulus mm = Inr (- 1, - 1)
    \<and> boneh_durfee False helpful_only lll_roots BB monomials modulus mm
         = lll_roots BB' monomials' nn
    \<and> (- 1, - 1) \<noteq> (0 :: int, 0 :: int)"
  using assms by (auto simp: boneh_durfee_def Let_def split: if_splits)

theorem boneh_durfee_strict_sentinel_witness:
  "boneh_durfee True True (\<lambda>BB monomials nn. Inr (7, 9)) [[5, 0], [3, 4]] [0 :: nat, 1] 2 1
     = Inr (- 1, - 1)
   \<and> boneh_durfee False True (\<lambda>BB monomials nn. Inr (7, 9)) [[5, 0], [3, 4]] [0 :: nat, 1] 2 1
     = Inr (7, 9)
   \<and> (- 1, - 1) \<noteq> (0 :: int, 0 :: int)"
proof -
  have r: "(if True
            then remove_unhelpful [[5, 0], [3, 4]] [0 :: nat, 1] (2 ^ 1) (int (length [0 :: nat, 1]) - 1)
            else Inr ([[5, 0], [3, 4]], [0 :: nat, 1])) = Inr ([[5, 0], [3, 4]], [0, 1])"
    by (simp add: remove_unhelpful.simps nrows_def dimension_min_def)
  have n: "(2 :: nat) = (if True then nrows [[5, 0], [3, 4]] else length [0 :: nat, 1])"
    by (simp add: nrows_def)
  have z: "(2 :: nat) \<noteq> 0"
    by simp
  have d: "det [[5, 0], [3, 4]] \<ge> 2 ^ (1 * 2)"
    by (simp add: delete_indices_def)
  show ?thesis
    using boneh_durfee_strict_sentinel [OF r n z d, of "\<lambda>BB monomials nn. Inr (7, 9)"]
    by simp
qed

section \<open>The bounds of \<open>factor\<close>\<close>

text \<open>
  An integer of \<open>n + 1\<close> bits or more has a bit length above \<open>n\<close>, so the
  quotient of a dividend from \<open>2 ^ 54\<close> on by 2 is rounded to a multiple of 2.
\<close>

lemma bit_length_gt: "2 ^ n \<le> x \<Longrightarrow> n < bit_length x"
proof (induction n arbitrary: x)
  case 0
  then show ?case by (simp add: bit_length.simps [of x])
next
  case (Suc n)
  then have "2 ^ n \<le> x div 2" by simp
  then have "n < bit_length (x div 2)" by (rule Suc.IH)
  moreover have "(0 :: int) < 2 ^ Suc n" by simp
  then have "0 < x" using Suc.prems by linarith
  ultimately show ?case by (simp add: bit_length.simps [of x])
qed

lemma bit_length_2: "bit_length 2 = 2"
  by (simp add: bit_length.simps)

lemma float_exponent_two:
  assumes "2 ^ 54 \<le> x"
  shows "1 \<le> float_exponent x 2"
proof -
  have b: "54 < bit_length x" using assms by (rule bit_length_gt)
  let ?e0 = "int (bit_length x) - int (bit_length 2) - 53"
  have e0: "0 \<le> ?e0" using b by (simp add: bit_length_2)
  show ?thesis
  proof (cases "?e0 = 0")
    case True
    have "(2 :: int) ^ 53 \<le> x div 2" using assms by simp
    then show ?thesis
      using True by (simp add: float_exponent_def Let_def)
  next
    case False
    then have "1 \<le> ?e0" using e0 by simp
    then show ?thesis
      by (simp add: float_exponent_def Let_def)
  qed
qed

lemma factor_A_even:
  assumes "2 ^ 54 \<le> N + 1" and "factor_A N = Inr A"
  shows "even A"
proof -
  let ?e = "float_exponent (N + 1) 2"
  have e: "1 \<le> ?e" using assms(1) by (rule float_exponent_two)
  have "(0 :: int) < 2 ^ 54" by simp
  then have pos: "0 < N + 1" using assms(1) by linarith
  define q where
    "q = sgn (N + 1) * sgn 2 * round_half_even ((N + 1) * 2 ^ nat (- ?e)) (2 * 2 ^ nat ?e)"
  have "py_truediv (N + 1) 2 = Inl OverflowError \<or> py_truediv (N + 1) 2 = Inr (PyFloat q ?e)"
    using pos unfolding py_truediv_def Let_def q_def by (simp del: power_numeral)
  with assms(2) have "A = q * 2 ^ nat ?e"
    using e by (auto simp: factor_A_def int_of_float_def)
  moreover have "even ((2 :: int) ^ nat ?e)" using e by simp
  ultimately show ?thesis by simp
qed

text \<open>
  Every modulus above \<open>2 ^ 54\<close> that is 1 modulo 4 has an odd \<open>(N + 1) div 2\<close>,
  which \<open>factor\<close> therefore never computes.
\<close>

lemma factor_A_inexact:
  assumes "N mod 4 = 1" and "2 ^ 54 < N"
  shows "factor_A N \<noteq> Inr ((N + 1) div 2)"
proof
  assume "factor_A N = Inr ((N + 1) div 2)"
  moreover have "2 ^ 54 \<le> N + 1" using assms(2) by simp
  ultimately have "even ((N + 1) div 2)" by (rule factor_A_even [rotated])
  moreover have "odd ((N + 1) div 2)" using assms(1) by presburger
  ultimately show False by simp
qed

text \<open>
  Claim C5 (\<open>factor\<close> computes \<open>A = floor((n + 1) / 2)\<close> and the bounds \<open>X\<close> and
  \<open>Y\<close> exactly, over arbitrary-precision integers, without floating point and
  for moduli of any size). The code divides and takes powers in doubles. For
  \<open>N = 2 ^ 54 + 1\<close> the quotient \<open>2 ^ 53 + 1\<close> needs 54 bits and is rounded to
  \<open>2 ^ 53\<close>, which is the \<open>A\<close> that \<open>factor\<close> uses; for \<open>N = 2 ^ 1024\<close> the
  conversion of \<open>N\<close> to a double in \<open>N ** delta\<close> raises OverflowError, whatever
  the power function.
\<close>

theorem factor_A_rounded_to_double:
  "factor_A (2 ^ 54 + 1) = Inr (2 ^ 53)
   \<and> (2 ^ 54 + 1 + 1) div 2 = (2 ^ 53 + 1 :: int)
   \<and> factor_bounds float_pow (2 ^ 1024) = Inl OverflowError"
  by code_simp

section \<open>The key object after a failed attack\<close>

text \<open>
  The Boneh--Durfee attack assigns \<open>p\<close> and \<open>q\<close> only after \<open>factor\<close> and
  \<open>RSA.construct\<close> have succeeded: whenever it returns the empty result the key
  object is as it was.
\<close>

lemma boneh_durfee_attack_frame:
  "fst (boneh_durfee_attack factor rsa_construct PrivateKey publickey) = Inr (None, None) \<Longrightarrow>
   snd (boneh_durfee_attack factor rsa_construct PrivateKey publickey) = publickey"
  by (auto simp: boneh_durfee_attack_def Let_def split: sum.splits option.splits if_splits)

lemma parse_factor_digits: "parse_factor ''10403'' = Inr 10403"
  by code_simp

text \<open>
  Claim C9 (the key object's \<open>p\<close> and \<open>q\<close> are written only by an invocation that
  succeeds; one that returns the empty result leaves the object unchanged). The
  FactorDB attack breaks it: it assigns \<open>publickey.p\<close> before it looks for the
  second factor. For a composite the database cannot factor, the page lists the
  number itself twice and no prime cell: \<open>ids\<close> has two entries, \<open>p\<close> is set to
  the value of \<open>ids[1]\<close>, \<open>ids[2]\<close> raises IndexError, and the attack returns the
  empty result with \<open>p\<close> attached to the caller's key.
\<close>

theorem factordb_attack_attaches_factor_on_failure:
  "factordb_attack (\<lambda>n. Inr ([''1100000000012345678'', ''1100000000012345678''], 0))
     (\<lambda>i. Inr [''10403'']) invmod PrivateKey
     \<lparr>pk_n = 10403, pk_e = 65537, pk_p = None, pk_q = None\<rparr>
   = (Inr (None, None), \<lparr>pk_n = 10403, pk_e = 65537, pk_p = Some 10403, pk_q = None\<rparr>)"
  by (simp add: factordb_attack_def factordb_body_def factordb_factors_def parse_factor_digits)

end
